theory Spec2Isabelle
  imports Complex_Main "HOL-Library.Word"
begin

section \<open>Data model of the walker (hmodvmc.cpp)\<close>

text \<open>
  The floating-point type \<open>fptype\<close> of the program is modelled by the reals: every
  statement below is a statement over exact arithmetic. Rounding, overflow to infinity
  and NaN are outside this model. An Eigen matrix is a function from row and column
  index to its entry, an Eigen vector a function from its index; the dimensions are
  those the program gives them (\<open>2 * L\<close> rows and \<open>N\<close> columns for \<open>W\<close> and \<open>M\<close>,
  \<open>L\<close> entries for \<open>T\<close>), and statements about entries are made for indices in range.
\<close>

type_synonym fptype = real
type_synonym MatrixXfp = "nat \<Rightarrow> nat \<Rightarrow> fptype"
type_synonym VectorXfp = "nat \<Rightarrow> fptype"

text \<open>A failed \<open>assert\<close> aborts the program; it is the only failure of the walker.\<close>

datatype failure = AssertionFailed

text \<open>
  The lattice is an abstract class of the program; the walker uses its site count
  \<open>lat->L\<close> and the two virtual methods below. They are fields here, so the theorems
  are about any lattice.
\<close>

record Lattice =
  lat_L :: nat
  get_spinup_site :: "nat \<Rightarrow> nat"
  get_Xnn :: "nat \<Rightarrow> nat \<Rightarrow> nat list"

text \<open>
  The members \<open>k\<close>, \<open>l\<close>, \<open>k_pos\<close> and \<open>possible\<close> of the struct \<open>ElectronHop\<close>, as
  the walker reads them (prefixed, since single letters are variables here).
\<close>

record ElectronHop =
  hop_k :: nat
  hop_l :: nat
  hop_k_pos :: nat
  hop_possible :: bool

datatype electron_occupation = ELECTRON_OCCUPATION_EMPTY | ELECTRON_OCCUPATION_FULL

text \<open>
  Modelled from the spec: the class \<open>ElectronConfiguration\<close>, whose source is not among
  the files of the walker. The spec describes it as the assignment of \<open>N\<close> electrons to
  the \<open>2 * L\<close> spin-orbital sites, with the position of an electron by index, the
  occupation of a site, the commit of an accepted hop and the double-occupancy count.
  The configuration is the list of the electrons' positions; a site is full when some
  electron sits on it; committing a hop moves electron \<open>k\<close> to the site \<open>l\<close>.
\<close>

record ElectronConfiguration =
  electron_pos :: "nat list"

definition econf_N :: "ElectronConfiguration \<Rightarrow> nat" where
  "econf_N ec = length (electron_pos ec)"

definition get_electron_pos :: "ElectronConfiguration \<Rightarrow> nat \<Rightarrow> nat" where
  "get_electron_pos ec eid = electron_pos ec ! eid"

definition get_site_occ :: "ElectronConfiguration \<Rightarrow> nat \<Rightarrow> electron_occupation" where
  "get_site_occ ec s =
     (if s \<in> set (electron_pos ec) then ELECTRON_OCCUPATION_FULL
      else ELECTRON_OCCUPATION_EMPTY)"

definition get_num_dblocc :: "nat \<Rightarrow> ElectronConfiguration \<Rightarrow> nat" where
  "get_num_dblocc Lsites ec =
     length (filter (\<lambda>j. j \<in> set (electron_pos ec) \<and> j + Lsites \<in> set (electron_pos ec))
               [0..<Lsites])"

definition do_hop :: "ElectronHop \<Rightarrow> ElectronConfiguration \<Rightarrow> ElectronConfiguration" where
  "do_hop hop ec = ec\<lparr>electron_pos := (electron_pos ec)[hop_k hop := hop_l hop]\<rparr>"

text \<open>The numeric value of the occupation enum, as the cast in \<open>calc_new_T\<close> reads it.\<close>

definition occ_value :: "electron_occupation \<Rightarrow> nat" where
  "occ_value oc = (case oc of ELECTRON_OCCUPATION_EMPTY \<Rightarrow> 0 | ELECTRON_OCCUPATION_FULL \<Rightarrow> 1)"

text \<open>
  The members of \<open>HubbardModelVMC\<close> that never change after construction, together with
  the collaborators whose code is outside the walker: the proposal kernel and the
  redistribution of the electron configuration (both draw from the random source of type
  \<open>'g\<close>), the uniform draw on \<open>[0,1)\<close>, Eigen's full-pivot LU decomposition (its
  invertibility test and its inverse, for an \<open>n \<times> n\<close> matrix) and the build flag
  \<open>NDEBUG\<close> that compiles the assertions out. The orbital matrix, the Jastrow table,
  the hopping amplitudes and the interaction are the members \<open>M\<close>, \<open>v\<close>, \<open>t\<close> and \<open>U\<close>.
\<close>

record 'g hmod =
  lat :: Lattice
  M_orb :: MatrixXfp
  v_jastrow :: "nat \<Rightarrow> nat \<Rightarrow> fptype"
  update_hop_maxdist :: nat
  t_hop :: "fptype list"
  U_int :: fptype
  updates_until_WT_recalc :: "32 word"
  econf_init :: "nat \<Rightarrow> 'g \<Rightarrow> ElectronConfiguration \<times> 'g"
  distribute_random :: "ElectronConfiguration \<Rightarrow> 'g \<Rightarrow> ElectronConfiguration \<times> 'g"
  propose_random_hop :: "ElectronConfiguration \<Rightarrow> nat \<Rightarrow> 'g \<Rightarrow> ElectronHop \<times> 'g"
  uniform_real_distribution :: "'g \<Rightarrow> fptype \<times> 'g"
  lu_isInvertible :: "nat \<Rightarrow> MatrixXfp \<Rightarrow> bool"
  lu_inverse :: "nat \<Rightarrow> MatrixXfp \<Rightarrow> MatrixXfp"
  NDEBUG :: bool

text \<open>
  The mutable members: the random source, the electron configuration, the ratio matrix
  \<open>W\<close>, the correlation vector \<open>T\<close>, the sweep counter (an \<open>unsigned long\<close>) and the
  counter of incremental updates (an \<open>unsigned int\<close>).
\<close>

record 'g walker =
  rng :: 'g
  econf :: ElectronConfiguration
  W_ratio :: MatrixXfp
  T_corr :: VectorXfp
  completed_mcsteps :: "64 word"
  updates_since_WT_recalc :: "32 word"


section \<open>Recomputation and incremental update of W and T\<close>

text \<open>The product of a matrix with \<open>n\<close> columns and a matrix with \<open>n\<close> rows.\<close>

definition mat_mul :: "nat \<Rightarrow> MatrixXfp \<Rightarrow> MatrixXfp \<Rightarrow> MatrixXfp" where
  "mat_mul n A B = (\<lambda>i j. \<Sum>m<n. A i m * B m j)"

definition calc_D :: "'g hmod \<Rightarrow> ElectronConfiguration \<Rightarrow> MatrixXfp" where
  "calc_D md ec = (\<lambda>eid. M_orb md (get_electron_pos ec eid))"

definition calc_new_W :: "'g hmod \<Rightarrow> ElectronConfiguration \<Rightarrow> failure + MatrixXfp" where
  "calc_new_W md ec =
     (if \<not> NDEBUG md \<and> \<not> lu_isInvertible md (econf_N ec) (calc_D md ec)
      then Inl AssertionFailed
      else Inr (mat_mul (econf_N ec) (M_orb md) (lu_inverse md (econf_N ec) (calc_D md ec))))"

definition calc_updated_W :: "MatrixXfp \<Rightarrow> ElectronHop \<Rightarrow> MatrixXfp" where
  "calc_updated_W W hop =
     (\<lambda>i j. W i j -
        (W i (hop_k hop) / W (hop_l hop) (hop_k hop))
        * (W (hop_l hop) j - W (hop_k_pos hop) j))"

definition calc_new_T :: "'g hmod \<Rightarrow> ElectronConfiguration \<Rightarrow> VectorXfp" where
  "calc_new_T md ec =
     (\<lambda>i. exp (fold (\<lambda>j sum. sum + v_jastrow md i j *
                   real (occ_value (get_site_occ ec j)
                         + occ_value (get_site_occ ec (j + lat_L (lat md)))))
                 [0..<lat_L (lat md)] 0))"

definition calc_updated_T :: "'g hmod \<Rightarrow> VectorXfp \<Rightarrow> ElectronHop \<Rightarrow> VectorXfp" where
  "calc_updated_T md T hop =
     (\<lambda>i. T i * exp (v_jastrow md i (get_spinup_site (lat md) (hop_l hop))
                      - v_jastrow md i (get_spinup_site (lat md) (hop_k_pos hop))))"

text \<open>
  The \<open>float\<close> literals of the two comparisons. Each is the binary32 number nearest to
  its decimal: \<open>0.001f = 8589935 / 2^33\<close>, \<open>1.01f = 4236247 / 2^22\<close>,
  \<open>0.99f = 4152361 / 2^22\<close>, \<open>1.001f = 8396997 / 2^23\<close> and
  \<open>0.999f = 16760439 / 2^24\<close>.
\<close>

definition lit_0_001f :: fptype where
  "lit_0_001f = 8589935 / 8589934592"

definition lit_1_01f :: fptype where
  "lit_1_01f = 4236247 / 4194304"

definition lit_0_99f :: fptype where
  "lit_0_99f = 4152361 / 4194304"

definition lit_1_001f :: fptype where
  "lit_1_001f = 8396997 / 8388608"

definition lit_0_999f :: fptype where
  "lit_0_999f = 16760439 / 16777216"

text \<open>
  The two comparisons of the verification build, on the exact sum and the exact
  quotient (the program compares their rounded values). With a recomputed entry equal
  to \<open>0\<close> the quotient is infinite or NaN in the program and both comparisons cannot
  hold; in HOL the quotient is \<open>0\<close>, and \<open>0 > 0.99f\<close> is false as well.
\<close>

definition W_entry_chk :: "fptype \<Rightarrow> fptype \<Rightarrow> bool" where
  "W_entry_chk w w_chk =
     (\<bar>w\<bar> + \<bar>w_chk\<bar> < lit_0_001f
      \<or> (w / w_chk < lit_1_01f \<and> w / w_chk > lit_0_99f))"

definition T_entry_chk :: "fptype \<Rightarrow> fptype \<Rightarrow> bool" where
  "T_entry_chk x x_chk =
     (\<bar>x\<bar> + \<bar>x_chk\<bar> < lit_0_001f
      \<or> (x / x_chk < lit_1_001f \<and> x / x_chk > lit_0_999f))"

definition W_crosscheck :: "'g hmod \<Rightarrow> ElectronConfiguration \<Rightarrow> MatrixXfp \<Rightarrow> failure + unit" where
  "W_crosscheck md ec W =
     (if NDEBUG md then Inr ()
      else case calc_new_W md ec of
             Inl e \<Rightarrow> Inl e
           | Inr W_chk \<Rightarrow>
               if list_all (\<lambda>j. list_all (\<lambda>i. W_entry_chk (W i j) (W_chk i j))
                                  [0..<2 * lat_L (lat md)]) [0..<econf_N ec]
               then Inr () else Inl AssertionFailed)"

definition T_crosscheck :: "'g hmod \<Rightarrow> ElectronConfiguration \<Rightarrow> VectorXfp \<Rightarrow> failure + unit" where
  "T_crosscheck md ec T =
     (if NDEBUG md then Inr ()
      else if list_all (\<lambda>i. T_entry_chk (T i) (calc_new_T md ec i)) [0..<lat_L (lat md)]
      then Inr () else Inl AssertionFailed)"

definition perform_WT_update :: "'g hmod \<Rightarrow> ElectronHop \<Rightarrow> 'g walker \<Rightarrow> failure + 'g walker" where
  "perform_WT_update md hop st =
     (if updates_since_WT_recalc st \<ge> updates_until_WT_recalc md then
        (case calc_new_W md (econf st) of
           Inl e \<Rightarrow> Inl e
         | Inr W_new \<Rightarrow>
             Inr (st\<lparr>W_ratio := W_new, T_corr := calc_new_T md (econf st),
                     updates_since_WT_recalc := 0\<rparr>))
      else
        (let W' = calc_updated_W (W_ratio st) hop in
         case W_crosscheck md (econf st) W' of
           Inl e \<Rightarrow> Inl e
         | Inr _ \<Rightarrow>
             (let T' = calc_updated_T md (T_corr st) hop in
              case T_crosscheck md (econf st) T' of
                Inl e \<Rightarrow> Inl e
              | Inr _ \<Rightarrow>
                  Inr (st\<lparr>W_ratio := W', T_corr := T',
                          updates_since_WT_recalc := updates_since_WT_recalc st + 1\<rparr>))))"


section \<open>The Metropolis step\<close>

text \<open>
  \<open>metstep\<close>: the proposal advances the random source; the short-circuit disjunction
  \<open>accept_prob >= 1.f || uniform(rng) < accept_prob\<close> draws only when its first operand
  is false. The result is the returned flag and the walker after the step.
\<close>

definition metstep :: "'g hmod \<Rightarrow> 'g walker \<Rightarrow> failure + (bool \<times> 'g walker)" where
  "metstep md st =
     (let (phop, g1) = propose_random_hop md (econf st) (update_hop_maxdist md) (rng st);
          st1 = st\<lparr>rng := g1\<rparr>
      in if \<not> hop_possible phop then Inr (False, st1)
         else
           (let R_j = T_corr st1 (get_spinup_site (lat md) (hop_l phop))
                      / T_corr st1 (get_spinup_site (lat md) (hop_k_pos phop))
                      * exp (v_jastrow md 0 0 - v_jastrow md (hop_l phop) (hop_k_pos phop));
                accept_prob = R_j * R_j * W_ratio st1 (hop_l phop) (hop_k phop)
                              * W_ratio st1 (hop_l phop) (hop_k phop);
                (accepted, g2) =
                  (if accept_prob \<ge> 1 then (True, g1)
                   else (let (u, g') = uniform_real_distribution md g1
                         in (u < accept_prob, g')));
                st2 = st1\<lparr>rng := g2\<rparr>
            in if accepted then
                 (case perform_WT_update md phop (st2\<lparr>econf := do_hop phop (econf st2)\<rparr>) of
                    Inl e \<Rightarrow> Inl e
                  | Inr st' \<Rightarrow> Inr (True, st'))
               else Inr (False, st2)))"


section \<open>Sweeps and equilibration\<close>

function mcs_loop :: "'g hmod \<Rightarrow> nat \<Rightarrow> 'g walker \<Rightarrow> failure + 'g walker" where
  "mcs_loop md s st =
     (if s < econf_N (econf st) then
        (case metstep md st of
           Inl e \<Rightarrow> Inl e
         | Inr r \<Rightarrow> mcs_loop md (Suc s) (snd r))
      else Inr st)"
  by pat_completeness auto
termination
proof (relation "measure (\<lambda>(md, s, st). econf_N (econf st) - s)")
  show "wf (measure (\<lambda>(md :: 'g hmod, s, st :: 'g walker). econf_N (econf st) - s))"
    by simp
next
  fix md :: "'g hmod" and s :: nat and st :: "'g walker" and r :: "bool \<times> 'g walker"
  assume less: "s < econf_N (econf st)" and step: "metstep md st = Inr r"
  have "econf_N (econf (snd r)) = econf_N (econf st)"
    using step
    by (auto simp: metstep_def perform_WT_update_def do_hop_def econf_N_def Let_def
             split: prod.splits if_splits sum.splits)
  with less
  show "((md, Suc s, snd r), (md, s, st)) \<in> measure (\<lambda>(md, s, st). econf_N (econf st) - s)"
    by simp
qed

declare mcs_loop.simps [simp del]

definition mcs :: "'g hmod \<Rightarrow> 'g walker \<Rightarrow> failure + 'g walker" where
  "mcs md st =
     (case mcs_loop md 0 st of
        Inl e \<Rightarrow> Inl e
      | Inr st' \<Rightarrow> Inr (st'\<lparr>completed_mcsteps := completed_mcsteps st' + 1\<rparr>))"

function equilibrate_loop :: "'g hmod \<Rightarrow> nat \<Rightarrow> nat \<Rightarrow> 'g walker \<Rightarrow> failure + 'g walker" where
  "equilibrate_loop md N_mcs_equil n st =
     (if n < N_mcs_equil then
        (case mcs md st of
           Inl e \<Rightarrow> Inl e
         | Inr st' \<Rightarrow> equilibrate_loop md N_mcs_equil (Suc n) st')
      else Inr st)"
  by pat_completeness auto
termination
  by (relation "measure (\<lambda>(md, N_mcs_equil, n, st). N_mcs_equil - n)") auto

declare equilibrate_loop.simps [simp del]

definition equilibrate :: "'g hmod \<Rightarrow> 32 word \<Rightarrow> 'g walker \<Rightarrow> failure + 'g walker" where
  "equilibrate md N_mcs_equil st =
     (case equilibrate_loop md (unat N_mcs_equil) 0 st of
        Inl e \<Rightarrow> Inl e
      | Inr st' \<Rightarrow>
          Inr (st'\<lparr>completed_mcsteps := completed_mcsteps st' - ucast N_mcs_equil\<rparr>))"

definition mctime :: "'g walker \<Rightarrow> 64 word" where
  "mctime st = completed_mcsteps st"


section \<open>The local energy\<close>

definition E_l_sum_Xnn :: "'g hmod \<Rightarrow> 'g walker \<Rightarrow> nat \<Rightarrow> nat \<Rightarrow> nat \<Rightarrow> fptype" where
  "E_l_sum_Xnn md st ke k_pos X =
     fold (\<lambda>l_it sum_Xnn.
             if get_site_occ (econf st) l_it = ELECTRON_OCCUPATION_EMPTY then
               (let R_j = T_corr st (get_spinup_site (lat md) l_it)
                          / T_corr st (get_spinup_site (lat md) k_pos)
                          * exp (v_jastrow md 0 0 - v_jastrow md l_it k_pos)
                in sum_Xnn + R_j * W_ratio st l_it ke)
             else sum_Xnn)
          (get_Xnn (lat md) k_pos X) 0"

definition E_l_classes :: "'g hmod \<Rightarrow> 'g walker \<Rightarrow> nat \<Rightarrow> nat \<Rightarrow> fptype \<Rightarrow> fptype" where
  "E_l_classes md st ke k_pos E_l_kin =
     fold (\<lambda>X E. if t_hop md ! (X - 1) = 0 then E
                 else E - t_hop md ! (X - 1) * E_l_sum_Xnn md st ke k_pos X)
          [1..<Suc (length (t_hop md))] E_l_kin"

fun E_l_electrons :: "'g hmod \<Rightarrow> 'g walker \<Rightarrow> nat list \<Rightarrow> fptype \<Rightarrow> failure + fptype" where
  "E_l_electrons md st [] E_l_kin = Inr E_l_kin"
| "E_l_electrons md st (ke # ks) E_l_kin =
     (let k_pos = get_electron_pos (econf st) ke
      in if \<not> NDEBUG md \<and> get_site_occ (econf st) k_pos \<noteq> ELECTRON_OCCUPATION_FULL
         then Inl AssertionFailed
         else E_l_electrons md st ks (E_l_classes md st ke k_pos E_l_kin))"

definition E_l :: "'g hmod \<Rightarrow> 'g walker \<Rightarrow> failure + fptype" where
  "E_l md st =
     (case E_l_electrons md st [0..<econf_N (econf st)] 0 of
        Inl e \<Rightarrow> Inl e
      | Inr E_l_kin \<Rightarrow>
          Inr ((E_l_kin + U_int md * real (get_num_dblocc (lat_L (lat md)) (econf st)))
               / real (lat_L (lat md))))"


section \<open>Construction\<close>

text \<open>
  The constructor redistributes the electrons until \<open>D\<close> is invertible. The loop has no
  bound, so its model is a partial function: \<open>None\<close> is the construction that never
  returns.
\<close>

partial_function (option) distribute_until_invertible ::
  "'g hmod \<Rightarrow> ElectronConfiguration \<times> 'g \<Rightarrow> (ElectronConfiguration \<times> 'g) option" where
  "distribute_until_invertible md s =
     (if lu_isInvertible md (econf_N (fst s)) (calc_D md (fst s)) then Some s
      else distribute_until_invertible md (distribute_random md (fst s) (snd s)))"

definition HubbardModelVMC :: "'g hmod \<Rightarrow> 'g \<Rightarrow> nat \<Rightarrow> 'g walker option" where
  "HubbardModelVMC md rng_init N_init =
     (case distribute_until_invertible md (econf_init md N_init rng_init) of
        None \<Rightarrow> None
      | Some (ec, g) \<Rightarrow>
          Some \<lparr>rng = g, econf = ec,
                W_ratio = mat_mul (econf_N ec) (M_orb md)
                            (lu_inverse md (econf_N ec) (calc_D md ec)),
                T_corr = calc_new_T md ec,
                completed_mcsteps = 0,
                updates_since_WT_recalc = 0\<rparr>)"


section \<open>The statements of the specification\<close>

text \<open>
  The Jastrow amplitude ratio as the walker computes it: the entries of \<open>T\<close> are read at
  the physical sites of the two spin-orbital indices, the Jastrow factor \<open>v\<close> is queried
  with the spin-orbital indices themselves.
\<close>

definition jastrow_ratio :: "'g hmod \<Rightarrow> VectorXfp \<Rightarrow> nat \<Rightarrow> nat \<Rightarrow> fptype" where
  "jastrow_ratio md T l kpos =
     T (get_spinup_site (lat md) l) / T (get_spinup_site (lat md) kpos)
     * exp (v_jastrow md 0 0 - v_jastrow md l kpos)"



text \<open>The acceptance probability \<open>p = (R \<sqdot> W[l, k])\<^sup>2\<close> of section 4.2.\<close>

definition acceptance_probability :: "'g hmod \<Rightarrow> 'g walker \<Rightarrow> ElectronHop \<Rightarrow> fptype" where
  "acceptance_probability md st phop =
     (jastrow_ratio md (T_corr st) (hop_l phop) (hop_k_pos phop)
      * W_ratio st (hop_l phop) (hop_k phop))\<^sup>2"


text \<open>
  The accepted branch of \<open>metstep\<close>: the hop is committed to the configuration and the
  maintainer refreshes \<open>W\<close> and \<open>T\<close>; the step returns \<open>true\<close>.
\<close>

definition commit_hop :: "'g hmod \<Rightarrow> ElectronHop \<Rightarrow> 'g walker \<Rightarrow> failure + (bool \<times> 'g walker)" where
  "commit_hop md phop st =
     (case perform_WT_update md phop (st\<lparr>econf := do_hop phop (econf st)\<rparr>) of
        Inl e \<Rightarrow> Inl e
      | Inr st' \<Rightarrow> Inr (True, st'))"

text \<open>A sequence of accepted hops, each committed and followed by the maintainer.\<close>

fun accepted_hops :: "'g hmod \<Rightarrow> ElectronHop list \<Rightarrow> 'g walker \<Rightarrow> failure + 'g walker" where
  "accepted_hops md [] st = Inr st"
| "accepted_hops md (h # hs) st =
     (case commit_hop md h st of
        Inl e \<Rightarrow> Inl e
      | Inr r \<Rightarrow> accepted_hops md hs (snd r))"

text \<open>
  The kinetic part of the local energy in the words of section 4.4, for a given Jastrow
  ratio \<open>R\<close>: for each electron and each distance class \<open>X\<close> with a nonzero hopping
  amplitude, the sum of \<open>R \<sqdot> W[l, k]\<close> over the empty sites \<open>l\<close> at that distance,
  multiplied by \<open>- t[X]\<close>.
\<close>

definition E_l_kin_with :: "(nat \<Rightarrow> nat \<Rightarrow> fptype) \<Rightarrow> 'g hmod \<Rightarrow> 'g walker \<Rightarrow> fptype" where
  "E_l_kin_with R md st =
     (\<Sum>ke<econf_N (econf st).
        \<Sum>X\<in>{1..length (t_hop md)}.
          if t_hop md ! (X - 1) = 0 then 0
          else - (t_hop md ! (X - 1)) *
               (\<Sum>l_it\<leftarrow>filter (\<lambda>l_it. get_site_occ (econf st) l_it = ELECTRON_OCCUPATION_EMPTY)
                          (get_Xnn (lat md) (get_electron_pos (econf st) ke) X).
                  R l_it (get_electron_pos (econf st) ke) * W_ratio st l_it ke))"

definition E_l_spec :: "'g hmod \<Rightarrow> 'g walker \<Rightarrow> fptype" where
  "E_l_spec md st =
     (E_l_kin_with (jastrow_ratio md (T_corr st)) md st
      + U_int md * real (get_num_dblocc (lat_L (lat md)) (econf st)))
     / real (lat_L (lat md))"


text \<open>
  The statement of section 8 about the incremental updates. Eigen's inverse is a
  collaborator of the walker: \<open>is_inverse\<close> says that a matrix is the two-sided inverse of
  another, and \<open>eigen_inverse_ok\<close> that the decomposition of \<open>D\<close> reports an invertible
  matrix and returns its inverse.
\<close>

definition is_inverse :: "nat \<Rightarrow> MatrixXfp \<Rightarrow> MatrixXfp \<Rightarrow> bool" where
  "is_inverse n A B =
     ((\<forall>i<n. \<forall>j<n. (\<Sum>m<n. A i m * B m j) = (if i = j then 1 else 0))
      \<and> (\<forall>i<n. \<forall>j<n. (\<Sum>m<n. B i m * A m j) = (if i = j then 1 else 0)))"

text \<open>
  The lattice maps the spin-orbital indices \<open>j\<close> and \<open>j + L\<close> to the site \<open>j\<close>, as
  \<open>calc_new_T\<close> assumes when it adds the occupations of \<open>j\<close> and \<open>j + L\<close>.
\<close>

definition lattice_sites_ok :: "Lattice \<Rightarrow> bool" where
  "lattice_sites_ok la =
     (\<forall>x<2 * lat_L la. get_spinup_site la x = (if x < lat_L la then x else x - lat_L la))"

definition occupation_number :: "ElectronConfiguration \<Rightarrow> nat \<Rightarrow> nat \<Rightarrow> nat" where
  "occupation_number ec Lsites j =
     occ_value (get_site_occ ec j) + occ_value (get_site_occ ec (j + Lsites))"

text \<open>
  \<open>W\<close> and \<open>T\<close> recomputed from scratch; a walker whose \<open>W\<close> and \<open>T\<close> are the recomputed
  ones; an accepted hop (electron \<open>k\<close> sits on \<open>k_pos\<close>, the target is an empty
  spin-orbital, and the hop was accepted, so its acceptance probability is positive); the
  walker after one incremental update.
\<close>

definition exact_W :: "'g hmod \<Rightarrow> ElectronConfiguration \<Rightarrow> MatrixXfp" where
  "exact_W md ec =
     mat_mul (econf_N ec) (M_orb md) (lu_inverse md (econf_N ec) (calc_D md ec))"

definition eigen_inverse_ok :: "'g hmod \<Rightarrow> ElectronConfiguration \<Rightarrow> bool" where
  "eigen_inverse_ok md ec =
     (lu_isInvertible md (econf_N ec) (calc_D md ec)
      \<and> is_inverse (econf_N ec) (calc_D md ec) (lu_inverse md (econf_N ec) (calc_D md ec)))"

definition econf_ok :: "'g hmod \<Rightarrow> ElectronConfiguration \<Rightarrow> bool" where
  "econf_ok md ec =
     (distinct (electron_pos ec) \<and> (\<forall>p\<in>set (electron_pos ec). p < 2 * lat_L (lat md)))"

definition walker_exact :: "'g hmod \<Rightarrow> 'g walker \<Rightarrow> bool" where
  "walker_exact md st =
     ((\<forall>i<2 * lat_L (lat md). \<forall>j<econf_N (econf st).
          W_ratio st i j = exact_W md (econf st) i j)
      \<and> (\<forall>i<lat_L (lat md). T_corr st i = calc_new_T md (econf st) i))"

definition hop_admissible :: "'g hmod \<Rightarrow> 'g walker \<Rightarrow> ElectronHop \<Rightarrow> bool" where
  "hop_admissible md st h =
     (hop_k h < econf_N (econf st)
      \<and> hop_k_pos h = get_electron_pos (econf st) (hop_k h)
      \<and> hop_l h < 2 * lat_L (lat md)
      \<and> get_site_occ (econf st) (hop_l h) = ELECTRON_OCCUPATION_EMPTY
      \<and> 0 < acceptance_probability md st h)"

definition incremental_step :: "'g hmod \<Rightarrow> ElectronHop \<Rightarrow> 'g walker \<Rightarrow> 'g walker" where
  "incremental_step md h st =
     st\<lparr>econf := do_hop h (econf st),
        W_ratio := calc_updated_W (W_ratio st) h,
        T_corr := calc_updated_T md (T_corr st) h,
        updates_since_WT_recalc := updates_since_WT_recalc st + 1\<rparr>"

fun hops_admissible :: "'g hmod \<Rightarrow> ElectronHop list \<Rightarrow> 'g walker \<Rightarrow> bool" where
  "hops_admissible md [] st = True"
| "hops_admissible md (h # hs) st =
     (hop_admissible md st h
      \<and> eigen_inverse_ok md (do_hop h (econf st))
      \<and> hops_admissible md hs (incremental_step md h st))"

text \<open>
  A sequence of accepted hops in which every call of the maintainer finds the counter
  below the threshold, so that each of its updates is an incremental one.
\<close>

fun incremental_run :: "'g hmod \<Rightarrow> ElectronHop list \<Rightarrow> 'g walker \<Rightarrow> bool" where
  "incremental_run md [] st = True"
| "incremental_run md (h # hs) st =
     (updates_since_WT_recalc st < updates_until_WT_recalc md
      \<and> (case commit_hop md h st of
            Inl e \<Rightarrow> False
          | Inr r \<Rightarrow> incremental_run md hs (snd r)))"


section \<open>A two-site chain with two electrons\<close>

text \<open>
  The concrete walker on which the theorems are instantiated: two sites, the spin-down
  spin-orbitals are \<open>2\<close> and \<open>3\<close>; one spin-up electron on spin-orbital \<open>0\<close> and one
  spin-down electron on spin-orbital \<open>2\<close>; the random source is the position in a fixed
  stream whose uniform draw is \<open>1/2\<close> at position \<open>1\<close> and \<open>1/8\<close> elsewhere; the
  proposal kernel always proposes to move the spin-down electron to spin-orbital \<open>3\<close>.
  The inverse is the one of a \<open>2 \<times> 2\<close> matrix.
\<close>

definition toy_lat :: Lattice where
  "toy_lat =
     \<lparr>lat_L = 2,
      get_spinup_site = (\<lambda>x. if x < 2 then x else x - 2),
      get_Xnn = (\<lambda>s X. if X = 1 then [if s < 2 then 1 - s else 5 - s] else [])\<rparr>"

definition toy_md :: "nat hmod" where
  "toy_md =
     \<lparr>lat = toy_lat,
      M_orb = (\<lambda>i j. if i = 0 \<and> j = 0 then 1 else if i = 1 \<and> j = 0 then 2
                      else if i = 2 \<and> j = 1 then 1 else if i = 3 \<and> j = 1 then 1/2 else 0),
      v_jastrow = (\<lambda>i j. 0),
      update_hop_maxdist = 1,
      t_hop = [1],
      U_int = 4,
      updates_until_WT_recalc = 2,
      econf_init = (\<lambda>n g. (\<lparr>electron_pos = [0, 2]\<rparr>, g)),
      distribute_random = (\<lambda>ec g. (ec, Suc g)),
      propose_random_hop =
        (\<lambda>ec d g. (\<lparr>hop_k = 1, hop_l = 3, hop_k_pos = 2,
                     hop_possible = (3 \<notin> set (electron_pos ec))\<rparr>, Suc g)),
      uniform_real_distribution = (\<lambda>g. (if g = 1 then 1/2 else 1/8, Suc g)),
      lu_isInvertible = (\<lambda>n D. D 0 0 * D 1 1 - D 0 1 * D 1 0 \<noteq> 0),
      lu_inverse =
        (\<lambda>n D i j. (if i = j then D (1 - i) (1 - j) else - D i j)
                    / (D 0 0 * D 1 1 - D 0 1 * D 1 0)),
      NDEBUG = False\<rparr>"

definition toy_st :: "nat walker" where
  "toy_st =
     \<lparr>rng = 0, econf = \<lparr>electron_pos = [0, 2]\<rparr>,
      W_ratio = mat_mul 2 (M_orb toy_md)
                  (lu_inverse toy_md 2 (calc_D toy_md \<lparr>electron_pos = [0, 2]\<rparr>)),
      T_corr = calc_new_T toy_md \<lparr>electron_pos = [0, 2]\<rparr>,
      completed_mcsteps = 0, updates_since_WT_recalc = 0\<rparr>"

definition toy_hop :: ElectronHop where
  "toy_hop = \<lparr>hop_k = 1, hop_l = 3, hop_k_pos = 2, hop_possible = True\<rparr>"

text \<open>A second hop, of the spin-up electron from spin-orbital \<open>0\<close> to spin-orbital \<open>1\<close>.\<close>

definition toy_hop2 :: ElectronHop where
  "toy_hop2 = \<lparr>hop_k = 0, hop_l = 1, hop_k_pos = 0, hop_possible = True\<rparr>"

text \<open>The walker after the proposed hop has been accepted at position \<open>3\<close> of the stream.\<close>

definition toy_st1 :: "nat walker" where
  "toy_st1 =
     toy_st\<lparr>rng := 4, econf := do_hop toy_hop (econf toy_st),
            W_ratio := calc_updated_W (W_ratio toy_st) toy_hop,
            T_corr := calc_updated_T toy_md (T_corr toy_st) toy_hop,
            updates_since_WT_recalc := 1\<rparr>"









section \<open>The control flow of the Metropolis step and of the maintainer\<close>

lemma word_less_inc_nonzero: "(x :: 32 word) < y \<Longrightarrow> x + 1 \<noteq> 0"
  by (metis add.commute add_diff_cancel_left' diff_0 word_order.extremum_strict)

lemma word_less_unat_inc: "(x :: 32 word) < y \<Longrightarrow> unat (x + 1) = unat x + 1"
  by (metis Suc_eq_plus1 add.commute unatSuc word_less_inc_nonzero)

lemma square_product: "(r :: real) * r * w * w = (r * w)\<^sup>2"
  by (simp add: power2_eq_square)

lemma perform_WT_update_recalc:
  assumes "updates_until_WT_recalc md \<le> updates_since_WT_recalc st"
  shows "perform_WT_update md hop st =
           (case calc_new_W md (econf st) of
              Inl e \<Rightarrow> Inl e
            | Inr W_new \<Rightarrow>
                Inr (st\<lparr>W_ratio := W_new, T_corr := calc_new_T md (econf st),
                        updates_since_WT_recalc := 0\<rparr>))"
  using assms by (simp add: perform_WT_update_def)

lemma perform_WT_update_incremental:
  assumes "\<not> updates_until_WT_recalc md \<le> updates_since_WT_recalc st"
    and "perform_WT_update md hop st = Inr st'"
  shows "st' = st\<lparr>W_ratio := calc_updated_W (W_ratio st) hop,
                  T_corr := calc_updated_T md (T_corr st) hop,
                  updates_since_WT_recalc := updates_since_WT_recalc st + 1\<rparr>"
  using assms by (auto simp: perform_WT_update_def Let_def split: sum.splits)

lemma perform_WT_update_incremental_ok:
  assumes "\<not> updates_until_WT_recalc md \<le> updates_since_WT_recalc st"
    and "W_crosscheck md (econf st) (calc_updated_W (W_ratio st) hop) = Inr ()"
    and "T_crosscheck md (econf st) (calc_updated_T md (T_corr st) hop) = Inr ()"
  shows "perform_WT_update md hop st =
           Inr (st\<lparr>W_ratio := calc_updated_W (W_ratio st) hop,
                   T_corr := calc_updated_T md (T_corr st) hop,
                   updates_since_WT_recalc := updates_since_WT_recalc st + 1\<rparr>)"
  using assms by (simp add: perform_WT_update_def Let_def)

lemma perform_WT_update_frame:
  assumes "perform_WT_update md hop st = Inr st'"
  shows "rng st' = rng st \<and> econf st' = econf st
         \<and> completed_mcsteps st' = completed_mcsteps st"
  using assms by (auto simp: perform_WT_update_def Let_def split: if_splits sum.splits)

lemma perform_WT_update_Inl:
  "perform_WT_update md hop st = Inl e \<Longrightarrow> \<not> NDEBUG md"
  by (auto simp: perform_WT_update_def Let_def calc_new_W_def W_crosscheck_def
        T_crosscheck_def split: if_splits sum.splits)

lemma perform_WT_update_since:
  assumes "perform_WT_update md hop st = Inr st'"
  shows "updates_since_WT_recalc st' =
           (if updates_until_WT_recalc md \<le> updates_since_WT_recalc st then 0
            else updates_since_WT_recalc st + 1)"
  using assms by (auto simp: perform_WT_update_def Let_def split: if_splits sum.splits)

lemma perform_WT_update_invariant:
  assumes "perform_WT_update md hop st = Inr st'"
  shows "updates_since_WT_recalc st' \<le> updates_until_WT_recalc md"
proof (cases "updates_until_WT_recalc md \<le> updates_since_WT_recalc st")
  case True
  with perform_WT_update_since [OF assms] show ?thesis by simp
next
  case False
  then have "updates_since_WT_recalc st < updates_until_WT_recalc md" by simp
  then have "updates_since_WT_recalc st + 1 \<le> updates_until_WT_recalc md" by (rule inc_le)
  with False perform_WT_update_since [OF assms] show ?thesis by simp
qed

lemma commit_hop_Inr:
  assumes "commit_hop md phop s = Inr (b, s')"
  shows "b \<and> perform_WT_update md phop (s\<lparr>econf := do_hop phop (econf s)\<rparr>) = Inr s'"
  using assms by (auto simp: commit_hop_def split: sum.splits)

lemma commit_hop_Inl: "commit_hop md phop s = Inl e \<Longrightarrow> \<not> NDEBUG md"
  by (auto simp: commit_hop_def split: sum.splits dest: perform_WT_update_Inl)

lemma commit_hop_frame:
  assumes "commit_hop md phop s = Inr (b, s')"
  shows "rng s' = rng s \<and> econf s' = do_hop phop (econf s)
         \<and> completed_mcsteps s' = completed_mcsteps s
         \<and> updates_since_WT_recalc s' \<le> updates_until_WT_recalc md"
  using perform_WT_update_frame [OF conjunct2 [OF commit_hop_Inr [OF assms]]]
    perform_WT_update_invariant [OF conjunct2 [OF commit_hop_Inr [OF assms]]]
  by simp

lemma metstep_unfold:
  assumes "propose_random_hop md (econf st) (update_hop_maxdist md) (rng st) = (phop, g1)"
  shows "metstep md st =
     (if \<not> hop_possible phop then Inr (False, st\<lparr>rng := g1\<rparr>)
      else if 1 \<le> acceptance_probability md st phop then commit_hop md phop (st\<lparr>rng := g1\<rparr>)
      else if fst (uniform_real_distribution md g1) < acceptance_probability md st phop
      then commit_hop md phop (st\<lparr>rng := snd (uniform_real_distribution md g1)\<rparr>)
      else Inr (False, st\<lparr>rng := snd (uniform_real_distribution md g1)\<rparr>))"
  unfolding metstep_def acceptance_probability_def jastrow_ratio_def commit_hop_def
    square_product [symmetric]
  using assms
  by (simp only: Let_def split_def fst_conv snd_conv walker.simps if_True if_False
        split: if_splits) simp

lemma metstep_Inl:
  assumes "metstep md st = Inl e"
  shows "\<not> NDEBUG md"
proof -
  obtain phop g1 where
    p: "propose_random_hop md (econf st) (update_hop_maxdist md) (rng st) = (phop, g1)"
    by (cases "propose_random_hop md (econf st) (update_hop_maxdist md) (rng st)")
  from assms show ?thesis
    unfolding metstep_unfold [OF p] by (auto split: if_splits dest: commit_hop_Inl)
qed

lemma metstep_False_frame:
  assumes "metstep md st = Inr (False, st')"
  shows "st' = st\<lparr>rng := rng st'\<rparr>"
proof -
  obtain phop g1 where
    p: "propose_random_hop md (econf st) (update_hop_maxdist md) (rng st) = (phop, g1)"
    by (cases "propose_random_hop md (econf st) (update_hop_maxdist md) (rng st)")
  from assms show ?thesis
    unfolding metstep_unfold [OF p] by (auto split: if_splits dest: commit_hop_Inr)
qed

lemma metstep_counters:
  assumes "metstep md st = Inr (b, st')"
    and "updates_since_WT_recalc st \<le> updates_until_WT_recalc md"
  shows "completed_mcsteps st' = completed_mcsteps st
         \<and> updates_since_WT_recalc st' \<le> updates_until_WT_recalc md"
proof -
  obtain phop g1 where
    p: "propose_random_hop md (econf st) (update_hop_maxdist md) (rng st) = (phop, g1)"
    by (cases "propose_random_hop md (econf st) (update_hop_maxdist md) (rng st)")
  from assms show ?thesis
    unfolding metstep_unfold [OF p] by (auto split: if_splits dest: commit_hop_frame)
qed

lemma metstep_completed:
  assumes "metstep md st = Inr (b, st')"
  shows "completed_mcsteps st' = completed_mcsteps st"
proof -
  obtain phop g1 where
    p: "propose_random_hop md (econf st) (update_hop_maxdist md) (rng st) = (phop, g1)"
    by (cases "propose_random_hop md (econf st) (update_hop_maxdist md) (rng st)")
  from assms show ?thesis
    unfolding metstep_unfold [OF p] by (auto split: if_splits dest: commit_hop_frame)
qed


section \<open>Sweeps and equilibration: the counters\<close>

lemma mcs_loop_counters:
  "mcs_loop md s st = Inr st' \<Longrightarrow>
   updates_since_WT_recalc st \<le> updates_until_WT_recalc md \<Longrightarrow>
   completed_mcsteps st' = completed_mcsteps st
   \<and> updates_since_WT_recalc st' \<le> updates_until_WT_recalc md"
proof (induction md s st rule: mcs_loop.induct)
  case (1 md s st)
  show ?case
  proof (cases "s < econf_N (econf st)")
    case True
    with "1.prems"(1) obtain r where r: "metstep md st = Inr r"
      and rest: "mcs_loop md (Suc s) (snd r) = Inr st'"
      by (subst (asm) mcs_loop.simps) (auto split: sum.splits)
    from r have r': "metstep md st = Inr (fst r, snd r)" by simp
    from metstep_counters [OF r' "1.prems"(2)] "1.IH" [OF True r rest]
    show ?thesis by simp
  next
    case False
    with "1.prems" show ?thesis by (subst (asm) mcs_loop.simps) simp
  qed
qed

lemma mcs_loop_completed:
  "mcs_loop md s st = Inr st' \<Longrightarrow> completed_mcsteps st' = completed_mcsteps st"
proof (induction md s st rule: mcs_loop.induct)
  case (1 md s st)
  show ?case
  proof (cases "s < econf_N (econf st)")
    case True
    with "1.prems"(1) obtain r where r: "metstep md st = Inr r"
      and rest: "mcs_loop md (Suc s) (snd r) = Inr st'"
      by (subst (asm) mcs_loop.simps) (auto split: sum.splits)
    from r have r': "metstep md st = Inr (fst r, snd r)" by simp
    from metstep_completed [OF r'] "1.IH" [OF True r rest]
    show ?thesis by simp
  next
    case False
    with "1.prems" show ?thesis by (subst (asm) mcs_loop.simps) simp
  qed
qed

lemma mcs_loop_Inl: "mcs_loop md s st = Inl e \<Longrightarrow> \<not> NDEBUG md"
proof (induction md s st rule: mcs_loop.induct)
  case (1 md s st)
  show ?case
  proof (cases "s < econf_N (econf st)")
    case True
    show ?thesis
    proof (cases "metstep md st")
      case (Inl e')
      then show ?thesis by (rule metstep_Inl)
    next
      case (Inr r)
      with "1.prems" True have "mcs_loop md (Suc s) (snd r) = Inl e"
        by (subst (asm) mcs_loop.simps) simp
      from "1.IH" [OF True Inr this] show ?thesis .
    qed
  next
    case False
    with "1.prems" show ?thesis by (subst (asm) mcs_loop.simps) simp
  qed
qed

lemma mcs_completed:
  "mcs md st = Inr st' \<Longrightarrow> completed_mcsteps st' = completed_mcsteps st + 1"
  by (auto simp: mcs_def split: sum.splits dest: mcs_loop_completed)

lemma mcs_invariant:
  "mcs md st = Inr st' \<Longrightarrow>
   updates_since_WT_recalc st \<le> updates_until_WT_recalc md \<Longrightarrow>
   updates_since_WT_recalc st' \<le> updates_until_WT_recalc md"
  by (auto simp: mcs_def split: sum.splits dest: mcs_loop_counters)

lemma mcs_Inl: "mcs md st = Inl e \<Longrightarrow> \<not> NDEBUG md"
  by (auto simp: mcs_def split: sum.splits dest: mcs_loop_Inl)

lemma equilibrate_loop_completed:
  "equilibrate_loop md K n st = Inr st' \<Longrightarrow>
   completed_mcsteps st' = completed_mcsteps st + of_nat (K - n)"
proof (induction md K n st rule: equilibrate_loop.induct)
  case (1 md K n st)
  show ?case
  proof (cases "n < K")
    case True
    with "1.prems" obtain st1 where s1: "mcs md st = Inr st1"
      and rest: "equilibrate_loop md K (Suc n) st1 = Inr st'"
      by (subst (asm) equilibrate_loop.simps) (auto split: sum.splits)
    have "K - n = Suc (K - Suc n)" using True by simp
    with "1.IH" [OF True s1 rest] mcs_completed [OF s1] show ?thesis by simp
  next
    case False
    with "1.prems" show ?thesis by (subst (asm) equilibrate_loop.simps) simp
  qed
qed

lemma equilibrate_loop_invariant:
  "equilibrate_loop md K n st = Inr st' \<Longrightarrow>
   updates_since_WT_recalc st \<le> updates_until_WT_recalc md \<Longrightarrow>
   updates_since_WT_recalc st' \<le> updates_until_WT_recalc md"
proof (induction md K n st rule: equilibrate_loop.induct)
  case (1 md K n st)
  show ?case
  proof (cases "n < K")
    case True
    with "1.prems"(1) obtain st1 where s1: "mcs md st = Inr st1"
      and rest: "equilibrate_loop md K (Suc n) st1 = Inr st'"
      by (subst (asm) equilibrate_loop.simps) (auto split: sum.splits)
    from "1.IH" [OF True s1 rest mcs_invariant [OF s1 "1.prems"(2)]] show ?thesis .
  next
    case False
    with "1.prems" show ?thesis by (subst (asm) equilibrate_loop.simps) simp
  qed
qed

lemma equilibrate_loop_Inl: "equilibrate_loop md K n st = Inl e \<Longrightarrow> \<not> NDEBUG md"
proof (induction md K n st rule: equilibrate_loop.induct)
  case (1 md K n st)
  show ?case
  proof (cases "n < K")
    case True
    show ?thesis
    proof (cases "mcs md st")
      case (Inl e')
      then show ?thesis by (rule mcs_Inl)
    next
      case (Inr st1)
      with "1.prems" True have "equilibrate_loop md K (Suc n) st1 = Inl e"
        by (subst (asm) equilibrate_loop.simps) simp
      from "1.IH" [OF True Inr this] show ?thesis .
    qed
  next
    case False
    with "1.prems" show ?thesis by (subst (asm) equilibrate_loop.simps) simp
  qed
qed

lemma equilibrate_completed:
  assumes "equilibrate md k st = Inr st'"
  shows "completed_mcsteps st' = completed_mcsteps st"
proof -
  from assms obtain st1 where l: "equilibrate_loop md (unat k) 0 st = Inr st1"
    and st': "st' = st1\<lparr>completed_mcsteps := completed_mcsteps st1 - ucast k\<rparr>"
    by (auto simp: equilibrate_def split: sum.splits)
  have "completed_mcsteps st1 = completed_mcsteps st + of_nat (unat k)"
    using equilibrate_loop_completed [OF l] by simp
  also have "(of_nat (unat k) :: 64 word) = ucast k" by (rule of_nat_unat)
  finally show ?thesis using st' by simp
qed

lemma equilibrate_invariant:
  "equilibrate md k st = Inr st' \<Longrightarrow>
   updates_since_WT_recalc st \<le> updates_until_WT_recalc md \<Longrightarrow>
   updates_since_WT_recalc st' \<le> updates_until_WT_recalc md"
  by (auto simp: equilibrate_def split: sum.splits dest: equilibrate_loop_invariant)

lemma equilibrate_Inl: "equilibrate md k st = Inl e \<Longrightarrow> \<not> NDEBUG md"
  by (auto simp: equilibrate_def split: sum.splits dest: equilibrate_loop_Inl)

lemma HubbardModelVMC_counters:
  assumes "HubbardModelVMC md g n = Some st"
  shows "completed_mcsteps st = 0 \<and> updates_since_WT_recalc st = 0"
  using assms by (auto simp: HubbardModelVMC_def split: option.splits)


section \<open>Evaluation on the two-site chain\<close>

lemmas toy_defs =
  toy_md_def toy_lat_def toy_st_def toy_hop_def

lemmas walker_defs =
  perform_WT_update_def W_crosscheck_def T_crosscheck_def calc_new_W_def calc_D_def
  calc_updated_W_def calc_updated_T_def calc_new_T_def mat_mul_def W_entry_chk_def
  T_entry_chk_def do_hop_def econf_N_def get_electron_pos_def get_site_occ_def
  occ_value_def commit_hop_def acceptance_probability_def jastrow_ratio_def
  lit_0_001f_def lit_1_01f_def lit_0_99f_def lit_1_001f_def lit_0_999f_def

lemmas unroll_defs =
  lessThan_Suc upt_rec eval_nat_numeral Let_def

lemma toy_propose:
  "propose_random_hop toy_md (econf toy_st) (update_hop_maxdist toy_md) (rng toy_st)
   = (toy_hop, 1)"
  by (simp add: toy_defs)

lemma toy_uniform: "uniform_real_distribution toy_md 1 = (1/2, 2)"
  by (simp add: toy_defs)

lemma toy_acceptance_probability: "acceptance_probability toy_md toy_st toy_hop = 1/4"
  by (simp add: toy_defs walker_defs unroll_defs power2_eq_square)

lemma toy_metstep: "metstep toy_md toy_st = Inr (False, toy_st\<lparr>rng := 2\<rparr>)"
  unfolding metstep_unfold [OF toy_propose] toy_uniform toy_acceptance_probability
  by (simp add: toy_hop_def)


lemma toy_construct: "HubbardModelVMC toy_md 0 2 = Some toy_st"
proof -
  have inv: "lu_isInvertible toy_md (econf_N \<lparr>electron_pos = [0, 2]\<rparr>)
               (calc_D toy_md \<lparr>electron_pos = [0, 2]\<rparr>)"
    by (simp add: toy_md_def calc_D_def get_electron_pos_def)
  have init: "econf_init toy_md 2 0 = (\<lparr>electron_pos = [0, 2]\<rparr>, 0)"
    by (simp add: toy_md_def)
  have n: "econf_N \<lparr>electron_pos = [0, 2]\<rparr> = 2"
    by (simp add: econf_N_def)
  show ?thesis
    unfolding HubbardModelVMC_def init
    by (subst distribute_until_invertible.simps) (simp add: inv, simp add: n toy_st_def)
qed

lemma toy_crosscheck_W:
  "W_crosscheck toy_md (do_hop toy_hop (econf toy_st))
     (calc_updated_W (W_ratio toy_st) toy_hop) = Inr ()"
  by (simp add: toy_defs walker_defs unroll_defs)

lemma toy_crosscheck_T:
  "T_crosscheck toy_md (do_hop toy_hop (econf toy_st))
     (calc_updated_T toy_md (T_corr toy_st) toy_hop) = Inr ()"
  by (simp add: toy_defs walker_defs unroll_defs)

lemma toy_commit: "commit_hop toy_md toy_hop (toy_st\<lparr>rng := 4\<rparr>) = Inr (True, toy_st1)"
proof -
  have "\<not> updates_until_WT_recalc toy_md
          \<le> updates_since_WT_recalc (toy_st\<lparr>rng := 4, econf := do_hop toy_hop (econf toy_st)\<rparr>)"
    by (simp add: toy_md_def toy_st_def)
  from perform_WT_update_incremental_ok [OF this, of toy_hop] toy_crosscheck_W toy_crosscheck_T
  show ?thesis
    by (simp add: commit_hop_def toy_st1_def) (simp add: toy_st_def)
qed

lemma toy_metstep2: "metstep toy_md (toy_st\<lparr>rng := 2\<rparr>) = Inr (True, toy_st1)"
proof -
  have p: "propose_random_hop toy_md (econf (toy_st\<lparr>rng := 2\<rparr>)) (update_hop_maxdist toy_md)
             (rng (toy_st\<lparr>rng := 2\<rparr>)) = (toy_hop, 3)"
    by (simp add: toy_defs)
  have u: "uniform_real_distribution toy_md 3 = (1/8, 4)"
    by (simp add: toy_defs)
  have a: "acceptance_probability toy_md (toy_st\<lparr>rng := 2\<rparr>) toy_hop = 1/4"
    using toy_acceptance_probability by (simp add: acceptance_probability_def)
  show ?thesis
    unfolding metstep_unfold [OF p] u a using toy_commit by (simp add: toy_hop_def)
qed

lemma toy_metstep_infeasible:
  "metstep toy_md (toy_st1\<lparr>rng := g, completed_mcsteps := c\<rparr>)
   = Inr (False, toy_st1\<lparr>rng := Suc g, completed_mcsteps := c\<rparr>)"
proof -
  have p: "propose_random_hop toy_md (econf (toy_st1\<lparr>rng := g, completed_mcsteps := c\<rparr>))
             (update_hop_maxdist toy_md) (rng (toy_st1\<lparr>rng := g, completed_mcsteps := c\<rparr>))
           = (toy_hop\<lparr>hop_possible := False\<rparr>, Suc g)"
    by (simp add: toy_defs toy_st1_def do_hop_def)
  show ?thesis unfolding metstep_unfold [OF p] by simp
qed

lemma toy_N: "econf_N (econf toy_st) = 2" "econf_N (econf toy_st1) = 2"
  by (simp_all add: toy_st1_def toy_st_def toy_hop_def econf_N_def do_hop_def)

lemma toy_mcs: "mcs toy_md toy_st = Inr (toy_st1\<lparr>completed_mcsteps := 1\<rparr>)"
proof -
  have "mcs_loop toy_md (Suc (Suc 0)) toy_st1 = Inr toy_st1"
    by (subst mcs_loop.simps) (simp add: toy_N)
  then have "mcs_loop toy_md (Suc 0) (toy_st\<lparr>rng := 2\<rparr>) = Inr toy_st1"
    by (subst mcs_loop.simps) (simp add: toy_N toy_metstep2)
  then have "mcs_loop toy_md 0 toy_st = Inr toy_st1"
    by (subst mcs_loop.simps) (simp add: toy_N toy_metstep)
  then show ?thesis
    by (simp add: mcs_def) (simp add: toy_st1_def toy_st_def)
qed

lemma toy_equilibrate: "equilibrate toy_md 1 toy_st = Inr toy_st1"
proof -
  have "equilibrate_loop toy_md 1 1 (toy_st1\<lparr>completed_mcsteps := 1\<rparr>)
        = Inr (toy_st1\<lparr>completed_mcsteps := 1\<rparr>)"
    by (subst equilibrate_loop.simps) simp
  then have "equilibrate_loop toy_md 1 0 toy_st = Inr (toy_st1\<lparr>completed_mcsteps := 1\<rparr>)"
    by (subst equilibrate_loop.simps) (simp add: toy_mcs)
  then show ?thesis
    by (simp add: equilibrate_def) (simp add: toy_st1_def toy_st_def)
qed

lemma toy_mcs2: "mcs toy_md toy_st1 = Inr (toy_st1\<lparr>rng := 6, completed_mcsteps := 1\<rparr>)"
proof -
  have s: "toy_st1 = toy_st1\<lparr>rng := 4, completed_mcsteps := 0\<rparr>"
    by (simp add: toy_st1_def toy_st_def)
  have "mcs_loop toy_md (Suc (Suc 0)) (toy_st1\<lparr>rng := 6, completed_mcsteps := 0\<rparr>)
        = Inr (toy_st1\<lparr>rng := 6, completed_mcsteps := 0\<rparr>)"
    by (subst mcs_loop.simps) (simp add: toy_N)
  then have "mcs_loop toy_md (Suc 0) (toy_st1\<lparr>rng := 5, completed_mcsteps := 0\<rparr>)
        = Inr (toy_st1\<lparr>rng := 6, completed_mcsteps := 0\<rparr>)"
    by (subst mcs_loop.simps) (simp add: toy_N toy_metstep_infeasible)
  then have "mcs_loop toy_md 0 (toy_st1\<lparr>rng := 4, completed_mcsteps := 0\<rparr>)
        = Inr (toy_st1\<lparr>rng := 6, completed_mcsteps := 0\<rparr>)"
    by (subst mcs_loop.simps) (simp add: toy_N toy_metstep_infeasible)
  then have "mcs_loop toy_md 0 toy_st1 = Inr (toy_st1\<lparr>rng := 6, completed_mcsteps := 0\<rparr>)"
    using s by simp
  then show ?thesis by (simp add: mcs_def)
qed

section \<open>The claims about the Metropolis step and the maintainer\<close>

text \<open>
  C3. For a feasible proposal the step computes \<open>p = (R \<sqdot> W[l, k])\<^sup>2\<close>; it accepts at
  once when \<open>p \<ge> 1\<close>, otherwise it accepts exactly when the one uniform draw is
  strictly below \<open>p\<close>; the flag it returns is true if and only if the hop was accepted,
  and an accepted hop is committed and handed to the maintainer.
\<close>

theorem metstep_acceptance_rule:
  assumes "propose_random_hop md (econf st) (update_hop_maxdist md) (rng st) = (phop, g1)"
    and "hop_possible phop"
    and "uniform_real_distribution md g1 = (u, g2)"
  shows "metstep md st =
           (if 1 \<le> acceptance_probability md st phop
            then commit_hop md phop (st\<lparr>rng := g1\<rparr>)
            else if u < acceptance_probability md st phop
            then commit_hop md phop (st\<lparr>rng := g2\<rparr>)
            else Inr (False, st\<lparr>rng := g2\<rparr>))
         \<and> (\<forall>b st'. metstep md st = Inr (b, st') \<longrightarrow>
               b = (1 \<le> acceptance_probability md st phop
                    \<or> u < acceptance_probability md st phop))"
proof -
  have eq: "metstep md st =
           (if 1 \<le> acceptance_probability md st phop
            then commit_hop md phop (st\<lparr>rng := g1\<rparr>)
            else if u < acceptance_probability md st phop
            then commit_hop md phop (st\<lparr>rng := g2\<rparr>)
            else Inr (False, st\<lparr>rng := g2\<rparr>))"
    unfolding metstep_unfold [OF assms(1)] using assms(2,3) by simp
  have "b = (1 \<le> acceptance_probability md st phop
             \<or> u < acceptance_probability md st phop)"
    if "metstep md st = Inr (b, st')" for b st'
    using that unfolding eq by (auto split: if_splits dest: commit_hop_Inr)
  with eq show ?thesis by blast
qed

theorem metstep_acceptance_rule_witness:
  "propose_random_hop toy_md (econf toy_st) (update_hop_maxdist toy_md) (rng toy_st)
     = (toy_hop, 1)
   \<and> hop_possible toy_hop
   \<and> uniform_real_distribution toy_md 1 = (1/2, 2)
   \<and> acceptance_probability toy_md toy_st toy_hop = 1/4
   \<and> metstep toy_md toy_st = Inr (False, toy_st\<lparr>rng := 2\<rparr>)"
proof -
  have possible: "hop_possible toy_hop" by (simp add: toy_hop_def)
  from metstep_acceptance_rule [OF toy_propose possible toy_uniform]
  have "metstep toy_md toy_st = Inr (False, toy_st\<lparr>rng := 2\<rparr>)"
    by (simp add: toy_acceptance_probability)
  with toy_propose possible toy_uniform toy_acceptance_probability show ?thesis by simp
qed

text \<open>
  C5. On an accepted hop the maintainer recomputes \<open>W\<close> and \<open>T\<close> from scratch and
  resets the counter to zero if and only if the counter has reached the threshold;
  otherwise it applies the two incremental updates and the counter grows by one. Only
  an assertion of the verification build can make it fail.
\<close>

theorem perform_WT_update_policy:
  "case perform_WT_update md hop st of
     Inl e \<Rightarrow> \<not> NDEBUG md
   | Inr st' \<Rightarrow>
       (updates_since_WT_recalc st' = 0)
         = (updates_until_WT_recalc md \<le> updates_since_WT_recalc st)
       \<and> (if updates_until_WT_recalc md \<le> updates_since_WT_recalc st
          then calc_new_W md (econf st) = Inr (W_ratio st')
               \<and> T_corr st' = calc_new_T md (econf st)
               \<and> updates_since_WT_recalc st' = 0
          else W_ratio st' = calc_updated_W (W_ratio st) hop
               \<and> T_corr st' = calc_updated_T md (T_corr st) hop
               \<and> updates_since_WT_recalc st' = updates_since_WT_recalc st + 1
               \<and> unat (updates_since_WT_recalc st') = unat (updates_since_WT_recalc st) + 1)"
proof (cases "perform_WT_update md hop st")
  case (Inl e)
  then show ?thesis by (simp add: perform_WT_update_Inl)
next
  case (Inr st')
  show ?thesis
  proof (cases "updates_until_WT_recalc md \<le> updates_since_WT_recalc st")
    case True
    with Inr show ?thesis
      by (auto simp: perform_WT_update_recalc split: sum.splits)
  next
    case False
    then have less: "updates_since_WT_recalc st < updates_until_WT_recalc md" by simp
    from perform_WT_update_incremental [OF False Inr] False Inr
      word_less_inc_nonzero [OF less] word_less_unat_inc [OF less]
    show ?thesis by simp
  qed
qed

theorem perform_WT_update_policy_witness:
  "perform_WT_update toy_md toy_hop (toy_st\<lparr>econf := do_hop toy_hop (econf toy_st)\<rparr>)
     \<noteq> Inl AssertionFailed
   \<and> map_sum id updates_since_WT_recalc
       (perform_WT_update toy_md toy_hop (toy_st\<lparr>econf := do_hop toy_hop (econf toy_st)\<rparr>))
     = Inr 1"
proof -
  have ok: "perform_WT_update toy_md toy_hop (toy_st\<lparr>econf := do_hop toy_hop (econf toy_st)\<rparr>)
              \<noteq> Inl AssertionFailed"
    by (simp add: toy_defs walker_defs unroll_defs)
  then obtain st' where
    st': "perform_WT_update toy_md toy_hop (toy_st\<lparr>econf := do_hop toy_hop (econf toy_st)\<rparr>)
            = Inr st'"
    by (cases "perform_WT_update toy_md toy_hop (toy_st\<lparr>econf := do_hop toy_hop (econf toy_st)\<rparr>)")
       (auto intro: failure.exhaust)
  from perform_WT_update_policy
         [where md = toy_md and hop = toy_hop
            and st = "toy_st\<lparr>econf := do_hop toy_hop (econf toy_st)\<rparr>"]
  have "updates_since_WT_recalc st' = 1"
    unfolding st' by (simp add: toy_md_def toy_st_def)
  with ok st' show ?thesis by simp
qed

text \<open>
  C7. Whenever the step returns \<open>false\<close>, for an infeasible proposal or for a failed
  acceptance test, the ratio matrix, the correlation vector, the electron configuration
  and both counters are those before the call: only the random source has advanced.
\<close>

theorem metstep_rejected_frame:
  assumes "metstep md st = Inr (False, st')"
  shows "W_ratio st' = W_ratio st \<and> T_corr st' = T_corr st \<and> econf st' = econf st
         \<and> completed_mcsteps st' = completed_mcsteps st
         \<and> updates_since_WT_recalc st' = updates_since_WT_recalc st"
proof -
  from metstep_False_frame [OF assms] have "st' = st\<lparr>rng := rng st'\<rparr>" .
  then have "W_ratio st' = W_ratio (st\<lparr>rng := rng st'\<rparr>)"
    and "T_corr st' = T_corr (st\<lparr>rng := rng st'\<rparr>)"
    and "econf st' = econf (st\<lparr>rng := rng st'\<rparr>)"
    and "completed_mcsteps st' = completed_mcsteps (st\<lparr>rng := rng st'\<rparr>)"
    and "updates_since_WT_recalc st' = updates_since_WT_recalc (st\<lparr>rng := rng st'\<rparr>)"
    by simp_all
  then show ?thesis by simp
qed

theorem metstep_rejected_frame_witness:
  "metstep toy_md toy_st = Inr (False, toy_st\<lparr>rng := 2\<rparr>)
   \<and> W_ratio (toy_st\<lparr>rng := 2\<rparr>) = W_ratio toy_st
   \<and> T_corr (toy_st\<lparr>rng := 2\<rparr>) = T_corr toy_st
   \<and> econf (toy_st\<lparr>rng := 2\<rparr>) = econf toy_st
   \<and> completed_mcsteps (toy_st\<lparr>rng := 2\<rparr>) = completed_mcsteps toy_st
   \<and> updates_since_WT_recalc (toy_st\<lparr>rng := 2\<rparr>) = updates_since_WT_recalc toy_st"
  using toy_metstep metstep_rejected_frame [OF toy_metstep] by simp

text \<open>
  C10. The step takes the uniform draw from the random source if and only if the
  proposal is feasible and the acceptance probability is strictly below \<open>1\<close>: after the
  step the random source is the one left by the draw in that case, and the one left by
  the proposal otherwise.
\<close>

theorem metstep_draw_consumption:
  assumes "propose_random_hop md (econf st) (update_hop_maxdist md) (rng st) = (phop, g1)"
  shows "case metstep md st of
           Inl e \<Rightarrow> \<not> NDEBUG md
         | Inr r \<Rightarrow>
             rng (snd r) =
               (if hop_possible phop \<and> acceptance_probability md st phop < 1
                then snd (uniform_real_distribution md g1) else g1)
             \<and> (snd (uniform_real_distribution md g1) \<noteq> g1 \<longrightarrow>
                  (rng (snd r) = snd (uniform_real_distribution md g1))
                    = (hop_possible phop \<and> acceptance_probability md st phop < 1))"
proof (cases "metstep md st")
  case (Inl e)
  then show ?thesis by (simp add: metstep_Inl)
next
  case (Inr r)
  have c: "rng s' = rng s" if "commit_hop md phop s = Inr r'" and "s' = snd r'" for s s' r'
    using commit_hop_frame [of md phop s "fst r'" "snd r'"] that by simp
  from Inr have "rng (snd r) =
               (if hop_possible phop \<and> acceptance_probability md st phop < 1
                then snd (uniform_real_distribution md g1) else g1)"
    unfolding metstep_unfold [OF assms] by (auto split: if_splits dest: c)
  with Inr show ?thesis by auto
qed

theorem metstep_draw_consumption_witness:
  "propose_random_hop toy_md (econf toy_st) (update_hop_maxdist toy_md) (rng toy_st)
     = (toy_hop, 1)
   \<and> snd (uniform_real_distribution toy_md 1) \<noteq> 1
   \<and> (hop_possible toy_hop \<and> acceptance_probability toy_md toy_st toy_hop < 1)
   \<and> rng (toy_st\<lparr>rng := 2\<rparr>) = snd (uniform_real_distribution toy_md 1)"
proof -
  from metstep_draw_consumption [OF toy_propose]
  have "rng (toy_st\<lparr>rng := 2\<rparr>) =
          (if hop_possible toy_hop \<and> acceptance_probability toy_md toy_st toy_hop < 1
           then snd (uniform_real_distribution toy_md 1) else 1)"
    unfolding toy_metstep by simp
  moreover have "hop_possible toy_hop" by (simp add: toy_hop_def)
  ultimately show ?thesis
    using toy_propose by (simp add: toy_uniform toy_acceptance_probability)
qed


section \<open>The claims about the counters\<close>

lemma equilibrate_then_mcs:
  assumes "completed_mcsteps st = c"
  shows "case equilibrate md k st of
           Inl e \<Rightarrow> \<not> NDEBUG md
         | Inr st1 \<Rightarrow>
             mctime st1 = c
             \<and> (case mcs md st1 of
                  Inl e \<Rightarrow> \<not> NDEBUG md
                | Inr st2 \<Rightarrow> mctime st2 = c + 1)"
proof (cases "equilibrate md k st")
  case (Inl e)
  then show ?thesis by (simp add: equilibrate_Inl)
next
  case (Inr st1)
  note e = equilibrate_completed [OF Inr]
  show ?thesis
  proof (cases "mcs md st1")
    case (Inl e')
    with Inr e assms show ?thesis by (simp add: mcs_Inl mctime_def)
  next
    case (Inr st2)
    with \<open>equilibrate md k st = Inr st1\<close> e assms mcs_completed [OF Inr]
    show ?thesis by (simp add: mctime_def)
  qed
qed

lemma unat_ucast_32_64: "unat (ucast (k :: 32 word) :: 64 word) = unat k"
proof -
  have "unat k < 2 ^ 32" using unsigned_less [of k, where 'a = nat] by simp
  also have "(2 :: nat) ^ 32 \<le> 2 ^ 64" by simp
  finally have "unat k < 2 ^ 64" .
  then show ?thesis
    by (simp add: unsigned_ucast_eq take_bit_nat_eq_self)
qed

lemma ucast_succ_not_one:
  assumes "k \<noteq> 0"
  shows "(1 :: 64 word) \<noteq> ucast (k :: 32 word) + 1"
proof
  assume "(1 :: 64 word) = ucast k + 1"
  then have "(ucast k :: 64 word) = 0" by simp
  then have "unat (ucast k :: 64 word) = 0" by simp
  then have "unat k = 0" by (simp add: unat_ucast_32_64)
  with assms show False by (simp add: unat_eq_zero)
qed

text \<open>
  C8. \<open>equilibrate(k)\<close> leaves the sweep counter read by \<open>mctime\<close> at its value on
  entry, for every \<open>k\<close>; on a freshly constructed walker, \<open>equilibrate(k)\<close> followed by
  one sweep leaves the counter at \<open>1\<close>, which is not \<open>k + 1\<close> unless \<open>k = 0\<close>. Only an
  assertion of the verification build can make the calls fail.
\<close>

theorem equilibrate_keeps_mctime:
  "(case equilibrate md k st of
      Inl e \<Rightarrow> \<not> NDEBUG md
    | Inr st' \<Rightarrow> mctime st' = mctime st)
   \<and> (HubbardModelVMC md g n = Some st \<longrightarrow>
        (case equilibrate md k st of
           Inl e \<Rightarrow> \<not> NDEBUG md
         | Inr st1 \<Rightarrow>
             mctime st1 = 0
             \<and> (case mcs md st1 of
                  Inl e \<Rightarrow> \<not> NDEBUG md
                | Inr st2 \<Rightarrow> mctime st2 = 1 \<and> (k \<noteq> 0 \<longrightarrow> mctime st2 \<noteq> ucast k + 1))))"
proof
  show "case equilibrate md k st of
          Inl e \<Rightarrow> \<not> NDEBUG md
        | Inr st' \<Rightarrow> mctime st' = mctime st"
    by (cases "equilibrate md k st")
       (simp_all add: equilibrate_Inl equilibrate_completed mctime_def)
next
  show "HubbardModelVMC md g n = Some st \<longrightarrow>
        (case equilibrate md k st of
           Inl e \<Rightarrow> \<not> NDEBUG md
         | Inr st1 \<Rightarrow>
             mctime st1 = 0
             \<and> (case mcs md st1 of
                  Inl e \<Rightarrow> \<not> NDEBUG md
                | Inr st2 \<Rightarrow> mctime st2 = 1 \<and> (k \<noteq> 0 \<longrightarrow> mctime st2 \<noteq> ucast k + 1)))"
  proof
    assume "HubbardModelVMC md g n = Some st"
    then have "completed_mcsteps st = 0" by (simp add: HubbardModelVMC_counters)
    from equilibrate_then_mcs [OF this, of md k] ucast_succ_not_one [of k]
    show "case equilibrate md k st of
           Inl e \<Rightarrow> \<not> NDEBUG md
         | Inr st1 \<Rightarrow>
             mctime st1 = 0
             \<and> (case mcs md st1 of
                  Inl e \<Rightarrow> \<not> NDEBUG md
                | Inr st2 \<Rightarrow> mctime st2 = 1 \<and> (k \<noteq> 0 \<longrightarrow> mctime st2 \<noteq> ucast k + 1))"
      by (auto split: sum.splits)
  qed
qed

theorem equilibrate_keeps_mctime_witness:
  "HubbardModelVMC toy_md 0 2 = Some toy_st
   \<and> equilibrate toy_md 1 toy_st = Inr toy_st1
   \<and> mctime toy_st1 = mctime toy_st
   \<and> mcs toy_md toy_st1 = Inr (toy_st1\<lparr>rng := 6, completed_mcsteps := 1\<rparr>)
   \<and> mctime (toy_st1\<lparr>rng := 6, completed_mcsteps := 1\<rparr>) = 1
   \<and> mctime (toy_st1\<lparr>rng := 6, completed_mcsteps := 1\<rparr>) \<noteq> ucast (1 :: 32 word) + 1"
proof -
  from equilibrate_keeps_mctime [where md = toy_md and k = 1 and st = toy_st and g = 0 and n = 2]
  have "mctime toy_st1 = mctime toy_st
        \<and> mctime (toy_st1\<lparr>rng := 6, completed_mcsteps := 1\<rparr>) = 1
        \<and> mctime (toy_st1\<lparr>rng := 6, completed_mcsteps := 1\<rparr>) \<noteq> ucast (1 :: 32 word) + 1"
    unfolding toy_construct toy_equilibrate by (simp add: toy_mcs2)
  with toy_construct toy_equilibrate toy_mcs2 show ?thesis by simp
qed

lemma commit_hop_incremental:
  assumes "commit_hop md h st = Inr r"
    and "updates_since_WT_recalc st < updates_until_WT_recalc md"
  shows "unat (updates_since_WT_recalc (snd r)) = unat (updates_since_WT_recalc st) + 1"
proof -
  from assms(1) have "commit_hop md h st = Inr (fst r, snd r)" by simp
  from commit_hop_Inr [OF this]
  have p: "perform_WT_update md h (st\<lparr>econf := do_hop h (econf st)\<rparr>) = Inr (snd r)"
    by simp
  from assms(2) perform_WT_update_since [OF p] word_less_unat_inc [OF assms(2)]
  show ?thesis by simp
qed

lemma accepted_hops_invariant:
  "accepted_hops md hops st = Inr st' \<Longrightarrow>
   updates_since_WT_recalc st \<le> updates_until_WT_recalc md \<Longrightarrow>
   updates_since_WT_recalc st' \<le> updates_until_WT_recalc md"
proof (induction hops arbitrary: st)
  case Nil
  then show ?case by simp
next
  case (Cons h hs)
  from Cons.prems(1) obtain r where r: "commit_hop md h st = Inr r"
    and rest: "accepted_hops md hs (snd r) = Inr st'"
    by (auto split: sum.splits)
  from r have "commit_hop md h st = Inr (fst r, snd r)" by simp
  from commit_hop_frame [OF this] Cons.IH [OF rest] show ?case by simp
qed

lemma incremental_run_length:
  "accepted_hops md hops st = Inr st' \<Longrightarrow> incremental_run md hops st \<Longrightarrow>
   unat (updates_since_WT_recalc st') = unat (updates_since_WT_recalc st) + length hops"
proof (induction hops arbitrary: st)
  case Nil
  then show ?case by simp
next
  case (Cons h hs)
  from Cons.prems(1) obtain r where r: "commit_hop md h st = Inr r"
    and rest: "accepted_hops md hs (snd r) = Inr st'"
    by (auto split: sum.splits)
  from Cons.prems(2) r have less: "updates_since_WT_recalc st < updates_until_WT_recalc md"
    and run: "incremental_run md hs (snd r)"
    by simp_all
  from Cons.IH [OF rest run] commit_hop_incremental [OF r less] show ?case by simp
qed

text \<open>
  C9. The counter of incremental updates is zero after construction and never exceeds
  the threshold: the maintainer, the Metropolis step, a sweep, an equilibration and any
  sequence of accepted hops keep it at most the threshold. Hence a sequence of accepted
  hops whose updates are all incremental has at most threshold many hops, and with
  threshold zero every accepted hop is followed by the exact recomputation.
\<close>

theorem updates_since_WT_recalc_bounded:
  "(HubbardModelVMC md g n = Some st0 \<longrightarrow> updates_since_WT_recalc st0 = 0)
   \<and> (\<forall>st'. perform_WT_update md hop st = Inr st' \<longrightarrow>
          updates_since_WT_recalc st' \<le> updates_until_WT_recalc md)
   \<and> (updates_since_WT_recalc st \<le> updates_until_WT_recalc md \<longrightarrow>
        (\<forall>b st'. metstep md st = Inr (b, st') \<longrightarrow>
            updates_since_WT_recalc st' \<le> updates_until_WT_recalc md)
      \<and> (\<forall>st'. mcs md st = Inr st' \<longrightarrow>
            updates_since_WT_recalc st' \<le> updates_until_WT_recalc md)
      \<and> (\<forall>st'. equilibrate md k st = Inr st' \<longrightarrow>
            updates_since_WT_recalc st' \<le> updates_until_WT_recalc md)
      \<and> (\<forall>st'. accepted_hops md hops st = Inr st' \<longrightarrow>
            updates_since_WT_recalc st' \<le> updates_until_WT_recalc md
            \<and> (incremental_run md hops st \<longrightarrow>
                 unat (updates_since_WT_recalc st) + length hops
                   \<le> unat (updates_until_WT_recalc md))))
   \<and> (updates_until_WT_recalc md = 0 \<longrightarrow>
        (\<forall>st'. perform_WT_update md hop st = Inr st' \<longrightarrow>
            calc_new_W md (econf st) = Inr (W_ratio st')
            \<and> T_corr st' = calc_new_T md (econf st)
            \<and> updates_since_WT_recalc st' = 0))"
proof (intro conjI impI allI)
  assume "HubbardModelVMC md g n = Some st0"
  then show "updates_since_WT_recalc st0 = 0" by (simp add: HubbardModelVMC_counters)
next
  fix st' assume "perform_WT_update md hop st = Inr st'"
  then show "updates_since_WT_recalc st' \<le> updates_until_WT_recalc md"
    by (rule perform_WT_update_invariant)
next
  fix b st'
  assume "updates_since_WT_recalc st \<le> updates_until_WT_recalc md"
    and "metstep md st = Inr (b, st')"
  then show "updates_since_WT_recalc st' \<le> updates_until_WT_recalc md"
    using metstep_counters by blast
next
  fix st'
  assume "updates_since_WT_recalc st \<le> updates_until_WT_recalc md" and "mcs md st = Inr st'"
  then show "updates_since_WT_recalc st' \<le> updates_until_WT_recalc md"
    using mcs_invariant by blast
next
  fix st'
  assume "updates_since_WT_recalc st \<le> updates_until_WT_recalc md"
    and "equilibrate md k st = Inr st'"
  then show "updates_since_WT_recalc st' \<le> updates_until_WT_recalc md"
    using equilibrate_invariant by blast
next
  fix st'
  assume "updates_since_WT_recalc st \<le> updates_until_WT_recalc md"
    and "accepted_hops md hops st = Inr st'"
  then show "updates_since_WT_recalc st' \<le> updates_until_WT_recalc md"
    using accepted_hops_invariant by blast
next
  fix st'
  assume inv: "updates_since_WT_recalc st \<le> updates_until_WT_recalc md"
    and run: "accepted_hops md hops st = Inr st'" and inc: "incremental_run md hops st"
  from accepted_hops_invariant [OF run inv]
  have "unat (updates_since_WT_recalc st') \<le> unat (updates_until_WT_recalc md)"
    by (simp add: word_le_nat_alt)
  with incremental_run_length [OF run inc]
  show "unat (updates_since_WT_recalc st) + length hops \<le> unat (updates_until_WT_recalc md)"
    by simp
next
  fix st'
  assume zero: "updates_until_WT_recalc md = 0" and p: "perform_WT_update md hop st = Inr st'"
  then have le: "updates_until_WT_recalc md \<le> updates_since_WT_recalc st" by simp
  from p show "calc_new_W md (econf st) = Inr (W_ratio st')"
    unfolding perform_WT_update_recalc [OF le] by (auto split: sum.splits)
  from p show "T_corr st' = calc_new_T md (econf st)"
    unfolding perform_WT_update_recalc [OF le] by (auto split: sum.splits)
  from p show "updates_since_WT_recalc st' = 0"
    unfolding perform_WT_update_recalc [OF le] by (auto split: sum.splits)
qed


lemma toy_accepted_hops: "accepted_hops toy_md [toy_hop] (toy_st\<lparr>rng := 4\<rparr>) = Inr toy_st1"
  by (simp add: toy_commit)

lemma toy_incremental_run: "incremental_run toy_md [toy_hop] (toy_st\<lparr>rng := 4\<rparr>)"
  by (simp add: toy_commit) (simp add: toy_md_def toy_st_def)

theorem updates_since_WT_recalc_bounded_witness:
  "HubbardModelVMC toy_md 0 2 = Some toy_st
   \<and> updates_since_WT_recalc toy_st = 0
   \<and> updates_since_WT_recalc (toy_st\<lparr>rng := 4\<rparr>) \<le> updates_until_WT_recalc toy_md
   \<and> accepted_hops toy_md [toy_hop] (toy_st\<lparr>rng := 4\<rparr>) = Inr toy_st1
   \<and> incremental_run toy_md [toy_hop] (toy_st\<lparr>rng := 4\<rparr>)
   \<and> updates_since_WT_recalc toy_st1 \<le> updates_until_WT_recalc toy_md
   \<and> unat (updates_since_WT_recalc (toy_st\<lparr>rng := 4\<rparr>)) + length [toy_hop]
       \<le> unat (updates_until_WT_recalc toy_md)
   \<and> updates_until_WT_recalc (toy_md\<lparr>updates_until_WT_recalc := 0\<rparr>) = 0
   \<and> map_sum id updates_since_WT_recalc
        (perform_WT_update (toy_md\<lparr>updates_until_WT_recalc := 0\<rparr>) toy_hop toy_st1)
      = Inr 0"
proof -
  have inv: "updates_since_WT_recalc (toy_st\<lparr>rng := 4\<rparr>) \<le> updates_until_WT_recalc toy_md"
    by (simp add: toy_md_def toy_st_def)
  from updates_since_WT_recalc_bounded
         [where md = toy_md and st = "toy_st\<lparr>rng := 4\<rparr>" and hops = "[toy_hop]"
            and g = 0 and n = 2 and ?st0.0 = toy_st]
       toy_construct inv toy_accepted_hops toy_incremental_run
  have a: "updates_since_WT_recalc toy_st = 0
           \<and> updates_since_WT_recalc toy_st1 \<le> updates_until_WT_recalc toy_md
           \<and> unat (updates_since_WT_recalc (toy_st\<lparr>rng := 4\<rparr>)) + length [toy_hop]
               \<le> unat (updates_until_WT_recalc toy_md)"
    by blast
  have ok: "perform_WT_update (toy_md\<lparr>updates_until_WT_recalc := 0\<rparr>) toy_hop toy_st1
              \<noteq> Inl AssertionFailed"
    by (simp add: perform_WT_update_def calc_new_W_def calc_D_def get_electron_pos_def
          toy_md_def toy_st1_def toy_st_def toy_hop_def do_hop_def)
  then obtain st' where
    st': "perform_WT_update (toy_md\<lparr>updates_until_WT_recalc := 0\<rparr>) toy_hop toy_st1 = Inr st'"
    by (cases "perform_WT_update (toy_md\<lparr>updates_until_WT_recalc := 0\<rparr>) toy_hop toy_st1")
       (auto intro: failure.exhaust)
  have zero: "updates_until_WT_recalc (toy_md\<lparr>updates_until_WT_recalc := 0\<rparr>) = 0"
    by simp
  from updates_since_WT_recalc_bounded
         [where md = "toy_md\<lparr>updates_until_WT_recalc := 0\<rparr>" and st = toy_st1
            and hop = toy_hop]
       zero st'
  have "updates_since_WT_recalc st' = 0" by blast
  with st' have b: "map_sum id updates_since_WT_recalc
        (perform_WT_update (toy_md\<lparr>updates_until_WT_recalc := 0\<rparr>) toy_hop toy_st1)
      = Inr 0"
    by simp
  from a b inv zero toy_construct toy_accepted_hops toy_incremental_run
  show ?thesis by blast
qed


section \<open>The local energy against its specification\<close>

lemma fold_cond_add:
  "fold (\<lambda>x acc. if P x then acc + f x else acc) xs (a :: real)
   = a + sum_list (map f (filter P xs))"
  by (induction xs arbitrary: a) simp_all

lemma fold_cond_sub:
  "fold (\<lambda>x acc. if c x then acc else acc - t x * f x) xs (a :: real)
   = a + sum_list (map (\<lambda>x. if c x then 0 else - t x * f x) xs)"
  by (induction xs arbitrary: a) simp_all

lemma sum_list_upt_from_1: "sum_list (map f [1..<Suc n]) = (\<Sum>X\<in>{1..n}. f X :: real)"
  by (simp only: interv_sum_list_conv_sum_set_nat set_upt atLeastLessThanSuc_atLeastAtMost)

lemma sum_list_upt_from_0: "sum_list (map f [0..<n]) = (\<Sum>ke<n. f ke :: real)"
  by (simp only: interv_sum_list_conv_sum_set_nat set_upt atLeast0LessThan)

lemma E_l_sum_Xnn_eq:
  "E_l_sum_Xnn md st ke k_pos X =
     (\<Sum>l_it\<leftarrow>filter (\<lambda>l_it. get_site_occ (econf st) l_it = ELECTRON_OCCUPATION_EMPTY)
                (get_Xnn (lat md) k_pos X).
        jastrow_ratio md (T_corr st) l_it k_pos * W_ratio st l_it ke)"
  unfolding E_l_sum_Xnn_def Let_def jastrow_ratio_def
  by (simp add: fold_cond_add)

lemma E_l_classes_eq:
  "E_l_classes md st ke k_pos E =
     E + (\<Sum>X\<in>{1..length (t_hop md)}.
            if t_hop md ! (X - 1) = 0 then 0
            else - (t_hop md ! (X - 1)) * E_l_sum_Xnn md st ke k_pos X)"
  unfolding E_l_classes_def fold_cond_sub sum_list_upt_from_1 ..

lemma E_l_electrons_eq:
  "\<forall>ke\<in>set ks. ke < econf_N (econf st) \<Longrightarrow>
   E_l_electrons md st ks E =
     Inr (E + sum_list (map (\<lambda>ke. \<Sum>X\<in>{1..length (t_hop md)}.
            if t_hop md ! (X - 1) = 0 then 0
            else - (t_hop md ! (X - 1)) *
                 E_l_sum_Xnn md st ke (get_electron_pos (econf st) ke) X) ks))"
proof (induction ks arbitrary: E)
  case Nil
  then show ?case by simp
next
  case (Cons ke ks)
  then have "ke < length (electron_pos (econf st))" by (simp add: econf_N_def)
  then have "get_site_occ (econf st) (get_electron_pos (econf st) ke) = ELECTRON_OCCUPATION_FULL"
    by (simp add: get_site_occ_def get_electron_pos_def)
  with Cons show ?case by (simp add: Let_def E_l_classes_eq add.assoc)
qed

lemma E_l_kin_eq:
  "E_l_electrons md st [0..<econf_N (econf st)] 0 =
     Inr (E_l_kin_with (jastrow_ratio md (T_corr st)) md st)"
proof -
  have "\<forall>ke\<in>set [0..<econf_N (econf st)]. ke < econf_N (econf st)" by simp
  from E_l_electrons_eq [OF this, of md 0] show ?thesis
    unfolding sum_list_upt_from_0 E_l_kin_with_def E_l_sum_Xnn_eq by simp
qed

lemma E_l_eq_spec: "E_l md st = Inr (E_l_spec md st)"
  by (simp add: E_l_def E_l_kin_eq E_l_spec_def)

lemma toy_E_l_spec: "E_l_spec toy_md toy_st = 3/4"
proof -
  have kin: "E_l_kin_with (jastrow_ratio toy_md (T_corr toy_st)) toy_md toy_st = - 5/2"
    by (simp add: E_l_kin_with_def toy_defs walker_defs unroll_defs)
  have dbl: "get_num_dblocc (lat_L (lat toy_md)) (econf toy_st) = 1"
    by (simp add: get_num_dblocc_def toy_defs unroll_defs)
  show ?thesis
    unfolding E_l_spec_def kin dbl by (simp add: toy_md_def toy_lat_def)
qed

text \<open>
  C4. The local energy is a function of the walker alone (it returns no walker, so it
  changes none) and its value is \<open>(E_kin + U \<sqdot> double occupancies) / L\<close>, where
  \<open>E_kin\<close> adds, for each electron and each distance class with nonzero hopping
  amplitude, \<open>- t[X]\<close> times the sum of \<open>R_j \<sqdot> W[l, k]\<close> over the empty sites at that
  distance. Its assertion never fails.
\<close>

theorem E_l_formula: "E_l md st = Inr (E_l_spec md st)"
  by (rule E_l_eq_spec)

theorem E_l_formula_witness: "E_l toy_md toy_st = Inr (3/4)"
  using E_l_formula [of toy_md toy_st] by (simp add: toy_E_l_spec)

section \<open>The tolerance of the verification build\<close>












section \<open>The Jastrow ratio\<close>


















section \<open>Incremental updates against recomputation\<close>

lemma sum_mult_delta:
  fixes f :: "nat \<Rightarrow> real"
  assumes "j < n"
  shows "(\<Sum>m<n. f m * (if m = j then 1 else 0)) = f j"
proof -
  have "(\<Sum>m<n. f m * (if m = j then 1 else 0)) = (\<Sum>m\<in>{..<n}. if m = j then f m else 0)"
    by (rule sum.cong) simp_all
  also have "\<dots> = f j" using assms by (simp add: sum.delta)
  finally show ?thesis .
qed

lemma sum_product_assoc:
  fixes A :: "nat \<Rightarrow> real" and B :: "nat \<Rightarrow> nat \<Rightarrow> real" and C :: "nat \<Rightarrow> real"
  shows "(\<Sum>m<n. (\<Sum>q<n. A q * B q m) * C m) = (\<Sum>q<n. A q * (\<Sum>m<n. B q m * C m))"
proof -
  have "(\<Sum>m<n. (\<Sum>q<n. A q * B q m) * C m) = (\<Sum>m<n. \<Sum>q<n. A q * B q m * C m)"
    by (simp add: sum_distrib_right)
  also have "\<dots> = (\<Sum>q<n. \<Sum>m<n. A q * B q m * C m)"
    by (rule sum.swap)
  also have "\<dots> = (\<Sum>q<n. A q * (\<Sum>m<n. B q m * C m))"
    by (simp add: sum_distrib_left mult.assoc)
  finally show ?thesis .
qed

text \<open>The rank-one update of \<open>M \<sqdot> D\<^sup>-\<^sup>1\<close> after row \<open>k\<close> of \<open>D\<close> is replaced by row \<open>l\<close> of \<open>M\<close>.\<close>

lemma rank_one_update:
  fixes M W D D' Dinv Dinv' :: MatrixXfp
  assumes inv: "is_inverse n D Dinv" and inv': "is_inverse n D' Dinv'"
    and k: "k < n"
    and Dk: "\<forall>j<n. D k j = M kpos j"
    and D': "\<forall>e<n. \<forall>j<n. D' e j = (if e = k then M l j else D e j)"
    and Wi: "\<forall>j<n. W i j = (\<Sum>m<n. M i m * Dinv m j)"
    and Wl: "\<forall>j<n. W l j = (\<Sum>m<n. M l m * Dinv m j)"
    and Wk: "\<forall>j<n. W kpos j = (\<Sum>m<n. M kpos m * Dinv m j)"
    and nz: "W l k \<noteq> 0"
    and j: "j < n"
  shows "W i j - (W i k / W l k) * (W l j - W kpos j) = (\<Sum>m<n. M i m * Dinv' m j)"
proof -
  define c where "c = W i k / W l k"
  let ?W' = "\<lambda>m. W i m - c * (W l m - W kpos m)"
  let ?\<Delta> = "\<lambda>q. M l q - M kpos q"
  have WD: "(\<Sum>m<n. W r m * D m q) = M r q"
    if r: "\<forall>j<n. W r j = (\<Sum>m<n. M r m * Dinv m j)" and q: "q < n" for r q
  proof -
    have "(\<Sum>m<n. W r m * D m q) = (\<Sum>m<n. (\<Sum>p<n. M r p * Dinv p m) * D m q)"
      by (rule sum.cong) (simp_all add: r)
    also have "\<dots> = (\<Sum>p<n. M r p * (\<Sum>m<n. Dinv p m * D m q))"
      by (rule sum_product_assoc)
    also have "\<dots> = (\<Sum>p<n. M r p * (if p = q then 1 else 0))"
      by (rule sum.cong) (use inv q in \<open>simp_all add: is_inverse_def\<close>)
    also have "\<dots> = M r q" by (rule sum_mult_delta [OF q])
    finally show ?thesis .
  qed
  have Wkpos: "W kpos m = (if m = k then 1 else 0)" if m: "m < n" for m
  proof -
    have "W kpos m = (\<Sum>p<n. M kpos p * Dinv p m)" using Wk m by simp
    also have "\<dots> = (\<Sum>p<n. D k p * Dinv p m)"
      by (rule sum.cong) (simp_all add: Dk)
    also have "\<dots> = (if k = m then 1 else 0)"
      using inv k m by (simp add: is_inverse_def)
    finally show ?thesis by auto
  qed
  have WD': "(\<Sum>m<n. W r m * D' m q) = M r q + W r k * ?\<Delta> q"
    if r: "\<forall>j<n. W r j = (\<Sum>m<n. M r m * Dinv m j)" and q: "q < n" for r q
  proof -
    have "(\<Sum>m<n. W r m * D' m q)
          = (\<Sum>m<n. W r m * D m q + (W r m * ?\<Delta> q) * (if m = k then 1 else 0))"
      by (rule sum.cong) (use D' Dk q in \<open>simp_all add: algebra_simps\<close>)
    also have "\<dots> = (\<Sum>m<n. W r m * D m q)
                   + (\<Sum>m<n. (W r m * ?\<Delta> q) * (if m = k then 1 else 0))"
      by (rule sum.distrib)
    also have "\<dots> = M r q + W r k * ?\<Delta> q"
      by (simp only: WD [OF r q] sum_mult_delta [OF k])
    finally show ?thesis .
  qed
  have kD': "(\<Sum>m<n. W kpos m * D' m q) = M l q" if q: "q < n" for q
  proof -
    have "(\<Sum>m<n. W kpos m * D' m q) = (\<Sum>m<n. D' m q * (if m = k then 1 else 0))"
      by (rule sum.cong) (simp_all add: Wkpos)
    also have "\<dots> = D' k q" by (rule sum_mult_delta [OF k])
    also have "\<dots> = M l q" using D' k q by simp
    finally show ?thesis .
  qed
  have W'D': "(\<Sum>m<n. ?W' m * D' m q) = M i q" if q: "q < n" for q
  proof -
    have "(\<Sum>m<n. ?W' m * D' m q)
          = (\<Sum>m<n. W i m * D' m q - (c * (W l m * D' m q) - c * (W kpos m * D' m q)))"
      by (rule sum.cong) (simp_all add: algebra_simps)
    also have "\<dots> = (\<Sum>m<n. W i m * D' m q)
            - (c * (\<Sum>m<n. W l m * D' m q) - c * (\<Sum>m<n. W kpos m * D' m q))"
      by (simp only: sum_subtractf sum_distrib_left)
    also have "\<dots> = M i q + W i k * ?\<Delta> q
                    - (c * (M l q + W l k * ?\<Delta> q) - c * M l q)"
      by (simp only: WD' [OF Wi q] WD' [OF Wl q] kD' [OF q])
    also have "\<dots> = M i q + W i k * ?\<Delta> q - (c * W l k) * ?\<Delta> q"
      by (simp add: algebra_simps)
    also have "c * W l k = W i k" using nz by (simp add: c_def)
    finally show ?thesis by simp
  qed
  have "?W' j = (\<Sum>m<n. ?W' m * (if m = j then 1 else 0))"
    by (rule sum_mult_delta [OF j, symmetric])
  also have "\<dots> = (\<Sum>m<n. ?W' m * (\<Sum>q<n. D' m q * Dinv' q j))"
    by (rule sum.cong) (use inv' j in \<open>simp_all add: is_inverse_def\<close>)
  also have "\<dots> = (\<Sum>m<n. \<Sum>q<n. ?W' m * D' m q * Dinv' q j)"
    by (simp add: sum_distrib_left mult.assoc)
  also have "\<dots> = (\<Sum>q<n. \<Sum>m<n. ?W' m * D' m q * Dinv' q j)"
    by (rule sum.swap)
  also have "\<dots> = (\<Sum>q<n. (\<Sum>m<n. ?W' m * D' m q) * Dinv' q j)"
    by (simp add: sum_distrib_right)
  also have "\<dots> = (\<Sum>q<n. M i q * Dinv' q j)"
    by (rule sum.cong) (simp_all add: W'D')
  finally show ?thesis by (simp add: c_def)
qed


lemma fold_add:
  "fold (\<lambda>x acc. acc + f x) xs (a :: real) = a + sum_list (map f xs)"
  by (induction xs arbitrary: a) simp_all

lemma calc_new_T_sum:
  "calc_new_T md ec i =
     exp (\<Sum>j<lat_L (lat md). v_jastrow md i j * real (occupation_number ec (lat_L (lat md)) j))"
  unfolding calc_new_T_def fold_add sum_list_upt_from_0 occupation_number_def by simp

lemma sum_site:
  fixes f :: "nat \<Rightarrow> real"
  assumes "x < 2 * n"
  shows "(\<Sum>j<n. f j * ((if j = x then 1 else 0) + (if j + n = x then 1 else 0)))
         = f (if x < n then x else x - n)"
proof (cases "x < n")
  case True
  have "(\<Sum>j<n. f j * ((if j = x then 1 else 0) + (if j + n = x then 1 else 0)))
        = (\<Sum>j<n. f j * (if j = x then 1 else 0))"
    by (rule sum.cong) (use True in auto)
  also have "\<dots> = f x" by (rule sum_mult_delta [OF True])
  finally show ?thesis using True by simp
next
  case False
  with assms have less: "x - n < n" by simp
  have "(\<Sum>j<n. f j * ((if j = x then 1 else 0) + (if j + n = x then 1 else 0)))
        = (\<Sum>j<n. f j * (if j = x - n then 1 else 0))"
    by (rule sum.cong) (use False in auto)
  also have "\<dots> = f (x - n)" by (rule sum_mult_delta [OF less])
  finally show ?thesis using False by simp
qed

lemma occ_value_do_hop:
  assumes d: "distinct (electron_pos ec)" and k: "hop_k h < length (electron_pos ec)"
    and kpos: "hop_k_pos h = electron_pos ec ! hop_k h"
    and l: "hop_l h \<notin> set (electron_pos ec)"
  shows "real (occ_value (get_site_occ (do_hop h ec) x))
         = real (occ_value (get_site_occ ec x))
           + (if x = hop_l h then 1 else 0) - (if x = hop_k_pos h then 1 else 0)"
proof -
  have s: "set (electron_pos (do_hop h ec))
           = insert (hop_l h) (set (electron_pos ec) - {hop_k_pos h})"
    using d k kpos by (simp add: do_hop_def set_update_distinct)
  have in_set: "hop_k_pos h \<in> set (electron_pos ec)" using k kpos by simp
  with l have "hop_l h \<noteq> hop_k_pos h" by auto
  with l in_set show ?thesis
    unfolding get_site_occ_def s occ_value_def by auto
qed

lemma calc_new_T_do_hop:
  assumes site: "lattice_sites_ok (lat md)"
    and d: "distinct (electron_pos ec)" and k: "hop_k h < length (electron_pos ec)"
    and kpos: "hop_k_pos h = electron_pos ec ! hop_k h"
    and l: "hop_l h \<notin> set (electron_pos ec)"
    and l_range: "hop_l h < 2 * lat_L (lat md)"
    and kpos_range: "hop_k_pos h < 2 * lat_L (lat md)"
    and T: "T i = calc_new_T md ec i"
  shows "calc_updated_T md T h i = calc_new_T md (do_hop h ec) i"
proof -
  let ?L = "lat_L (lat md)"
  let ?a = "\<lambda>x j. (if j = x then 1 else 0) + (if j + ?L = x then (1 :: real) else 0)"
  have n: "real (occupation_number (do_hop h ec) ?L j)
           = real (occupation_number ec ?L j) + ?a (hop_l h) j - ?a (hop_k_pos h) j" for j
    unfolding occupation_number_def
    by (simp add: occ_value_do_hop [OF d k kpos l])
  have "(\<Sum>j<?L. v_jastrow md i j * real (occupation_number (do_hop h ec) ?L j))
        = (\<Sum>j<?L. v_jastrow md i j * real (occupation_number ec ?L j)
                    + v_jastrow md i j * ?a (hop_l h) j
                    - v_jastrow md i j * ?a (hop_k_pos h) j)"
    by (rule sum.cong) (simp_all only: n algebra_simps)
  also have "\<dots> = (\<Sum>j<?L. v_jastrow md i j * real (occupation_number ec ?L j))
                  + (\<Sum>j<?L. v_jastrow md i j * ?a (hop_l h) j)
                  - (\<Sum>j<?L. v_jastrow md i j * ?a (hop_k_pos h) j)"
    by (simp only: sum_subtractf sum.distrib)
  also have "(\<Sum>j<?L. v_jastrow md i j * ?a (hop_l h) j)
             = v_jastrow md i (get_spinup_site (lat md) (hop_l h))"
    using site l_range by (simp only: sum_site [OF l_range] lattice_sites_ok_def)
  also have "(\<Sum>j<?L. v_jastrow md i j * ?a (hop_k_pos h) j)
             = v_jastrow md i (get_spinup_site (lat md) (hop_k_pos h))"
    using site kpos_range by (simp only: sum_site [OF kpos_range] lattice_sites_ok_def)
  finally have "calc_new_T md (do_hop h ec) i
        = exp ((\<Sum>j<?L. v_jastrow md i j * real (occupation_number ec ?L j))
               + (v_jastrow md i (get_spinup_site (lat md) (hop_l h))
                  - v_jastrow md i (get_spinup_site (lat md) (hop_k_pos h))))"
    by (simp add: calc_new_T_sum algebra_simps)
  then show ?thesis
    unfolding calc_updated_T_def T calc_new_T_sum by (simp only: exp_add)
qed


lemma entry_chk_refl: "W_entry_chk x x" "T_entry_chk x x"
  by (cases "x = 0"; simp add: W_entry_chk_def T_entry_chk_def lit_0_001f_def lit_1_01f_def
        lit_0_99f_def lit_1_001f_def lit_0_999f_def)+

lemma econf_N_do_hop: "econf_N (do_hop h ec) = econf_N ec"
  by (simp add: econf_N_def do_hop_def)

lemma calc_new_W_exact:
  assumes "eigen_inverse_ok md ec"
  shows "calc_new_W md ec = Inr (exact_W md ec)"
  using assms by (simp add: calc_new_W_def exact_W_def eigen_inverse_ok_def)

lemma W_crosscheck_exact:
  assumes "eigen_inverse_ok md ec"
    and "\<forall>i<2 * lat_L (lat md). \<forall>j<econf_N ec. W i j = exact_W md ec i j"
  shows "W_crosscheck md ec W = Inr ()"
  using assms(2)
  by (simp add: W_crosscheck_def calc_new_W_exact [OF assms(1)] list_all_iff entry_chk_refl)

lemma T_crosscheck_exact:
  assumes "\<forall>i<lat_L (lat md). T i = calc_new_T md ec i"
  shows "T_crosscheck md ec T = Inr ()"
  using assms by (simp add: T_crosscheck_def list_all_iff entry_chk_refl)

lemma econf_ok_do_hop:
  assumes "econf_ok md ec" and "hop_l h \<notin> set (electron_pos ec)"
    and "hop_l h < 2 * lat_L (lat md)"
  shows "econf_ok md (do_hop h ec)"
  using assms unfolding econf_ok_def do_hop_def
  by (auto simp: distinct_list_update dest: set_update_subset_insert [THEN subsetD])

lemma incremental_step_exact:
  assumes site: "lattice_sites_ok (lat md)"
    and ok: "econf_ok md (econf st)"
    and inv: "eigen_inverse_ok md (econf st)"
    and exact: "walker_exact md st"
    and adm: "hop_admissible md st h"
    and inv': "eigen_inverse_ok md (do_hop h (econf st))"
  shows "walker_exact md (incremental_step md h st)"
proof -
  let ?ec = "econf st" and ?ec' = "do_hop h (econf st)"
  let ?n = "econf_N (econf st)" and ?L = "lat_L (lat md)"
  from adm have k: "hop_k h < ?n" and kpos: "hop_k_pos h = electron_pos ?ec ! hop_k h"
    and l_range: "hop_l h < 2 * ?L" and l: "hop_l h \<notin> set (electron_pos ?ec)"
    and p: "0 < acceptance_probability md st h"
    by (auto simp: hop_admissible_def get_electron_pos_def get_site_occ_def split: if_splits)
  from k kpos have "hop_k_pos h \<in> set (electron_pos ?ec)" by (simp add: econf_N_def)
  with ok have kpos_range: "hop_k_pos h < 2 * ?L" by (simp add: econf_ok_def)
  from p have nz: "W_ratio st (hop_l h) (hop_k h) \<noteq> 0"
    by (auto simp: acceptance_probability_def)
  from inv have i1: "is_inverse ?n (calc_D md ?ec) (lu_inverse md ?n (calc_D md ?ec))"
    by (simp add: eigen_inverse_ok_def)
  from inv' have i2: "is_inverse ?n (calc_D md ?ec') (lu_inverse md ?n (calc_D md ?ec'))"
    by (simp add: eigen_inverse_ok_def econf_N_do_hop)
  have Dk: "\<forall>j<?n. calc_D md ?ec (hop_k h) j = M_orb md (hop_k_pos h) j"
    by (simp add: calc_D_def get_electron_pos_def kpos)
  have D': "\<forall>e<?n. \<forall>j<?n. calc_D md ?ec' e j
              = (if e = hop_k h then M_orb md (hop_l h) j else calc_D md ?ec e j)"
    by (simp add: calc_D_def get_electron_pos_def do_hop_def econf_N_def nth_list_update)
  have row: "\<forall>j<?n. W_ratio st r j
              = (\<Sum>m<?n. M_orb md r m * lu_inverse md ?n (calc_D md ?ec) m j)"
    if "r < 2 * ?L" for r
    using exact that by (simp add: walker_exact_def exact_W_def mat_mul_def)
  have W: "calc_updated_W (W_ratio st) h i j = exact_W md ?ec' i j"
    if i: "i < 2 * ?L" and j: "j < ?n" for i j
    unfolding calc_updated_W_def exact_W_def mat_mul_def econf_N_do_hop
    by (rule rank_one_update [OF i1 i2 k Dk D' row [OF i] row [OF l_range] row [OF kpos_range] nz j])
  from ok have d: "distinct (electron_pos ?ec)" by (simp add: econf_ok_def)
  from k have k': "hop_k h < length (electron_pos ?ec)" by (simp add: econf_N_def)
  have T: "calc_updated_T md (T_corr st) h i = calc_new_T md ?ec' i" if "i < ?L" for i
    using exact that
    by (intro calc_new_T_do_hop [OF site d k' kpos l l_range kpos_range])
       (simp add: walker_exact_def)
  from W T show ?thesis
    by (simp add: walker_exact_def incremental_step_def econf_N_do_hop)
qed

lemma commit_hop_incremental_exact:
  assumes exact': "walker_exact md (incremental_step md h st)"
    and inv': "eigen_inverse_ok md (do_hop h (econf st))"
    and less: "updates_since_WT_recalc st < updates_until_WT_recalc md"
  shows "commit_hop md h st = Inr (True, incremental_step md h st)"
proof -
  let ?st = "st\<lparr>econf := do_hop h (econf st)\<rparr>"
  from less have branch: "\<not> updates_until_WT_recalc md \<le> updates_since_WT_recalc ?st"
    by simp
  from exact' have
    W: "\<forall>i<2 * lat_L (lat md). \<forall>j<econf_N (econf ?st).
          calc_updated_W (W_ratio ?st) h i j = exact_W md (econf ?st) i j"
    and T: "\<forall>i<lat_L (lat md).
          calc_updated_T md (T_corr ?st) h i = calc_new_T md (econf ?st) i"
    by (simp_all add: walker_exact_def incremental_step_def)
  from inv' have "eigen_inverse_ok md (econf ?st)" by simp
  from perform_WT_update_incremental_ok
         [OF branch W_crosscheck_exact [OF this W] T_crosscheck_exact [OF T]]
  show ?thesis by (simp add: commit_hop_def incremental_step_def)
qed

lemma accepted_hops_exact:
  "lattice_sites_ok (lat md) \<Longrightarrow> econf_ok md (econf st) \<Longrightarrow> eigen_inverse_ok md (econf st) \<Longrightarrow>
   walker_exact md st \<Longrightarrow> hops_admissible md hops st \<Longrightarrow>
   unat (updates_since_WT_recalc st) + length hops \<le> unat (updates_until_WT_recalc md) \<Longrightarrow>
   accepted_hops md hops st = Inr (fold (incremental_step md) hops st)
   \<and> walker_exact md (fold (incremental_step md) hops st)"
proof (induction hops arbitrary: st)
  case Nil
  then show ?case by simp
next
  case (Cons h hs)
  from Cons.prems(5) have adm: "hop_admissible md st h"
    and inv': "eigen_inverse_ok md (do_hop h (econf st))"
    and rest: "hops_admissible md hs (incremental_step md h st)"
    by simp_all
  from Cons.prems(6) have "unat (updates_since_WT_recalc st) < unat (updates_until_WT_recalc md)"
    by simp
  then have less: "updates_since_WT_recalc st < updates_until_WT_recalc md"
    by (simp add: word_less_nat_alt)
  note exact' = incremental_step_exact [OF Cons.prems(1-4) adm inv']
  note step = commit_hop_incremental_exact [OF exact' inv' less]
  from adm have "hop_l h \<notin> set (electron_pos (econf st))" "hop_l h < 2 * lat_L (lat md)"
    by (auto simp: hop_admissible_def get_site_occ_def split: if_splits)
  from econf_ok_do_hop [OF Cons.prems(2) this]
  have ok': "econf_ok md (econf (incremental_step md h st))"
    by (simp add: incremental_step_def)
  from inv' have inv'': "eigen_inverse_ok md (econf (incremental_step md h st))"
    by (simp add: incremental_step_def)
  have "unat (updates_since_WT_recalc (incremental_step md h st)) + length hs
        \<le> unat (updates_until_WT_recalc md)"
    using Cons.prems(6) word_less_unat_inc [OF less] by (simp add: incremental_step_def)
  from Cons.IH [OF Cons.prems(1) ok' inv'' exact' rest this] step
  show ?case by simp
qed

lemma hops_admissible_inverse:
  "eigen_inverse_ok md (econf st) \<Longrightarrow> hops_admissible md hops st \<Longrightarrow>
   eigen_inverse_ok md (econf (fold (incremental_step md) hops st))"
proof (induction hops arbitrary: st)
  case Nil
  then show ?case by simp
next
  case (Cons h hs)
  from Cons.prems(2) have "eigen_inverse_ok md (econf (incremental_step md h st))"
    and "hops_admissible md hs (incremental_step md h st)"
    by (simp_all add: incremental_step_def)
  from Cons.IH [OF this] show ?case by simp
qed

lemma toy_lattice_sites_ok: "lattice_sites_ok (lat toy_md)"
  by (simp add: lattice_sites_ok_def toy_md_def toy_lat_def)

lemma toy_econf_ok: "econf_ok toy_md (econf toy_st)"
  by (simp add: econf_ok_def toy_md_def toy_lat_def toy_st_def)

lemma toy_inverse_ok:
  "eigen_inverse_ok toy_md \<lparr>electron_pos = [0, 2]\<rparr>"
  "eigen_inverse_ok toy_md \<lparr>electron_pos = [0, 3]\<rparr>"
  "eigen_inverse_ok toy_md \<lparr>electron_pos = [1, 3]\<rparr>"
  by (simp_all add: eigen_inverse_ok_def is_inverse_def calc_D_def econf_N_def
        get_electron_pos_def toy_md_def All_less_Suc lessThan_Suc)

lemma toy_walker_exact: "walker_exact toy_md toy_st"
  by (simp add: walker_exact_def exact_W_def toy_st_def econf_N_def numeral_2_eq_2)

lemma toy_hop_admissible: "hop_admissible toy_md toy_st toy_hop"
  unfolding hop_admissible_def toy_acceptance_probability
  by (simp add: toy_defs econf_N_def get_electron_pos_def get_site_occ_def)

lemma toy_incremental_step_fields:
  "econf (incremental_step toy_md toy_hop toy_st) = \<lparr>electron_pos = [0, 3]\<rparr>"
  "T_corr (incremental_step toy_md toy_hop toy_st) 0 = 1"
  "T_corr (incremental_step toy_md toy_hop toy_st) (Suc 0) = 1"
  "W_ratio (incremental_step toy_md toy_hop toy_st) (Suc 0) 0 = 2"
  by (simp_all add: incremental_step_def toy_defs walker_defs unroll_defs)

lemma toy_md_fields:
  "lat toy_md = toy_lat" "v_jastrow toy_md = (\<lambda>i j. 0)"
  "updates_until_WT_recalc toy_md = 2"
  by (simp_all add: toy_md_def)

lemma toy_hop2_admissible:
  "hop_admissible toy_md (incremental_step toy_md toy_hop toy_st) toy_hop2"
proof -
  have "acceptance_probability toy_md (incremental_step toy_md toy_hop toy_st) toy_hop2 = 4"
    unfolding acceptance_probability_def jastrow_ratio_def toy_md_fields
    by (simp add: toy_hop2_def toy_incremental_step_fields toy_lat_def)
  then show ?thesis
    unfolding hop_admissible_def toy_incremental_step_fields toy_md_fields
    by (simp add: toy_hop2_def toy_lat_def econf_N_def get_electron_pos_def
          get_site_occ_def)
qed

lemma toy_hops_admissible: "hops_admissible toy_md [toy_hop, toy_hop2] toy_st"
proof -
  have "do_hop toy_hop (econf toy_st) = \<lparr>electron_pos = [0, 3]\<rparr>"
    by (simp add: do_hop_def toy_st_def toy_hop_def)
  moreover have "do_hop toy_hop2 \<lparr>electron_pos = [0, 3]\<rparr> = \<lparr>electron_pos = [1, 3]\<rparr>"
    by (simp add: do_hop_def toy_hop2_def)
  ultimately show ?thesis
    using toy_hop_admissible toy_hop2_admissible toy_inverse_ok
    by (simp add: toy_incremental_step_fields)
qed


text \<open>
  A step that returns \<open>true\<close> on a draw from \<open>[0,1)\<close> has accepted a feasible proposal
  of positive acceptance probability.
\<close>

lemma metstep_accepted_positive:
  assumes "propose_random_hop md (econf st) (update_hop_maxdist md) (rng st) = (phop, g1)"
    and "0 \<le> fst (uniform_real_distribution md g1)"
    and "metstep md st = Inr (True, st')"
  shows "hop_possible phop \<and> 0 < acceptance_probability md st phop"
  using assms(2,3) unfolding metstep_unfold [OF assms(1)]
  by (auto split: if_splits)

lemma toy_final_W:
  "W_ratio (fold (incremental_step toy_md) [toy_hop, toy_hop2] toy_st) (Suc 0) 0 = 1"
  by (simp add: incremental_step_def toy_defs toy_hop2_def walker_defs unroll_defs)

text \<open>
  C1. Start from a walker whose \<open>W\<close> and \<open>T\<close> are the recomputed ones and take any
  sequence of accepted hops that the counter lets the maintainer handle incrementally
  (its length is at most the threshold minus the counter). Over exact arithmetic, with
  Eigen returning the inverse of each \<open>D\<close> on the way, the maintainer applies the rank-one
  update of \<open>W\<close> and the exponential update of \<open>T\<close> at every hop, no assertion of the
  verification build fails, and the resulting \<open>W\<close> and \<open>T\<close> are entry by entry
  \<open>M \<sqdot> D\<^sup>-\<^sup>1\<close> and \<open>T\<close> recomputed from the resulting electron configuration.
\<close>

theorem incremental_updates_match_recomputation:
  assumes "lattice_sites_ok (lat md)"
    and "econf_ok md (econf st)"
    and "eigen_inverse_ok md (econf st)"
    and "walker_exact md st"
    and "hops_admissible md hops st"
    and "unat (updates_since_WT_recalc st) + length hops \<le> unat (updates_until_WT_recalc md)"
  shows "let st' = fold (incremental_step md) hops st
         in accepted_hops md hops st = Inr st'
            \<and> calc_new_W md (econf st') = Inr (exact_W md (econf st'))
            \<and> (\<forall>i<2 * lat_L (lat md). \<forall>j<econf_N (econf st').
                  W_ratio st' i j = exact_W md (econf st') i j)
            \<and> (\<forall>i<lat_L (lat md). T_corr st' i = calc_new_T md (econf st') i)"
proof -
  from accepted_hops_exact [OF assms]
  have run: "accepted_hops md hops st = Inr (fold (incremental_step md) hops st)"
    and exact: "walker_exact md (fold (incremental_step md) hops st)"
    by simp_all
  from hops_admissible_inverse [OF assms(3,5)]
  have "calc_new_W md (econf (fold (incremental_step md) hops st))
        = Inr (exact_W md (econf (fold (incremental_step md) hops st)))"
    by (rule calc_new_W_exact)
  with run exact show ?thesis by (simp add: walker_exact_def Let_def)
qed

theorem incremental_updates_match_recomputation_witness:
  "lattice_sites_ok (lat toy_md)
   \<and> econf_ok toy_md (econf toy_st)
   \<and> eigen_inverse_ok toy_md (econf toy_st)
   \<and> walker_exact toy_md toy_st
   \<and> hops_admissible toy_md [toy_hop, toy_hop2] toy_st
   \<and> unat (updates_since_WT_recalc toy_st) + length [toy_hop, toy_hop2]
       \<le> unat (updates_until_WT_recalc toy_md)
   \<and> accepted_hops toy_md [toy_hop, toy_hop2] toy_st
       = Inr (fold (incremental_step toy_md) [toy_hop, toy_hop2] toy_st)
   \<and> W_ratio (fold (incremental_step toy_md) [toy_hop, toy_hop2] toy_st) 1 0
       = exact_W toy_md (econf (fold (incremental_step toy_md) [toy_hop, toy_hop2] toy_st)) 1 0
   \<and> exact_W toy_md (econf (fold (incremental_step toy_md) [toy_hop, toy_hop2] toy_st)) 1 0 = 1
   \<and> T_corr (fold (incremental_step toy_md) [toy_hop, toy_hop2] toy_st) 1
       = calc_new_T toy_md (econf (fold (incremental_step toy_md) [toy_hop, toy_hop2] toy_st)) 1"
proof -
  have inv: "eigen_inverse_ok toy_md (econf toy_st)"
    using toy_inverse_ok(1) by (simp add: toy_st_def)
  have len: "unat (updates_since_WT_recalc toy_st) + length [toy_hop, toy_hop2]
       \<le> unat (updates_until_WT_recalc toy_md)"
    by (simp add: toy_st_def toy_md_fields)
  have n: "econf_N (econf (fold (incremental_step toy_md) [toy_hop, toy_hop2] toy_st)) = 2"
    by (simp add: incremental_step_def econf_N_do_hop toy_N)
  have L: "lat_L (lat toy_md) = 2"
    by (simp add: toy_md_fields toy_lat_def)
  from incremental_updates_match_recomputation
         [OF toy_lattice_sites_ok toy_econf_ok inv toy_walker_exact toy_hops_admissible len]
  have "accepted_hops toy_md [toy_hop, toy_hop2] toy_st
          = Inr (fold (incremental_step toy_md) [toy_hop, toy_hop2] toy_st)
        \<and> W_ratio (fold (incremental_step toy_md) [toy_hop, toy_hop2] toy_st) 1 0
          = exact_W toy_md (econf (fold (incremental_step toy_md) [toy_hop, toy_hop2] toy_st)) 1 0
        \<and> T_corr (fold (incremental_step toy_md) [toy_hop, toy_hop2] toy_st) 1
          = calc_new_T toy_md (econf (fold (incremental_step toy_md) [toy_hop, toy_hop2] toy_st)) 1"
    unfolding Let_def n L by simp
  with toy_lattice_sites_ok toy_econf_ok inv toy_walker_exact toy_hops_admissible len
    toy_final_W
  show ?thesis by simp
qed

end
